theory Spec2Isabelle
  imports Main
begin

section \<open>Block-level parser of markdown-server (markdown/parser/block.go)\<close>

text \<open>
  A shallow embedding of the block parser. A byte slice is a \<open>char list\<close>, an index into it
  a natural number. A Go string that is ranged over is the list of runes (code points)
  the range clause yields.
\<close>

type_synonym bytes = "char list"
type_synonym rune = nat

subsection \<open>Heading identifiers: sanitizeHeadingID\<close>

text \<open>
  The function calls \<open>unicode.IsLetter\<close>, \<open>unicode.IsNumber\<close> and \<open>unicode.ToLower\<close> of
  Go's standard library, which is not part of the repository. They are parameters of the
  model, gathered in a record.
\<close>

record unicode_tables =
  IsLetter :: "rune \<Rightarrow> bool"
  IsNumber :: "rune \<Rightarrow> bool"
  ToLower :: "rune \<Rightarrow> rune"

definition dash :: rune where
  "dash = 0x2D"

definition empty_id :: "rune list" where
  "empty_id = [0x65, 0x6D, 0x70, 0x74, 0x79]"

text \<open>The loop of sanitizeHeadingID: the remaining runes, \<open>anchorName\<close>, \<open>futureDash\<close>.\<close>

fun sanitize_loop :: "unicode_tables \<Rightarrow> rune list \<Rightarrow> rune list \<Rightarrow> bool \<Rightarrow> rune list" where
  "sanitize_loop U [] anchorName futureDash = anchorName"
| "sanitize_loop U (r # rs) anchorName futureDash =
     (if IsLetter U r \<or> IsNumber U r
      then sanitize_loop U rs
             ((if futureDash \<and> length anchorName > 0 then anchorName @ [dash] else anchorName)
                @ [ToLower U r])
             False
      else sanitize_loop U rs anchorName True)"

definition sanitizeHeadingID :: "unicode_tables \<Rightarrow> rune list \<Rightarrow> rune list" where
  "sanitizeHeadingID U text =
     (let anchorName = sanitize_loop U text [] False
      in if length anchorName = 0 then empty_id else anchorName)"

text \<open>
  What the proofs use of Go's unicode package: on ASCII the three functions are the
  familiar ones, and lower-casing a letter or number gives a letter or number that
  lower-casing leaves alone.
\<close>

definition ascii_letter :: "rune \<Rightarrow> bool" where
  "ascii_letter r = ((0x41 \<le> r \<and> r \<le> 0x5A) \<or> (0x61 \<le> r \<and> r \<le> 0x7A))"

definition ascii_digit :: "rune \<Rightarrow> bool" where
  "ascii_digit r = (0x30 \<le> r \<and> r \<le> 0x39)"

definition ascii_lower :: "rune \<Rightarrow> rune" where
  "ascii_lower r = (if 0x41 \<le> r \<and> r \<le> 0x5A then r + 0x20 else r)"

definition go_unicode :: "unicode_tables \<Rightarrow> bool" where
  "go_unicode U =
     ((\<forall>r. r < 0x80 \<longrightarrow>
          IsLetter U r = ascii_letter r \<and> IsNumber U r = ascii_digit r
          \<and> ToLower U r = ascii_lower r)
      \<and> (\<forall>r. IsLetter U r \<or> IsNumber U r \<longrightarrow>
          (IsLetter U (ToLower U r) \<or> IsNumber U (ToLower U r))
          \<and> ToLower U (ToLower U r) = ToLower U r))"

text \<open>
  Go's tables on Latin-1 (U+0000 to U+00FF), as \<open>unicode/tables.go\<close> has them; the runes
  above U+00FF are outside this instance and count as neither letter nor number.
\<close>

definition latin1_letter :: "rune \<Rightarrow> bool" where
  "latin1_letter r =
     (ascii_letter r \<or> r = 0xAA \<or> r = 0xB5 \<or> r = 0xBA
      \<or> (0xC0 \<le> r \<and> r \<le> 0xD6) \<or> (0xD8 \<le> r \<and> r \<le> 0xF6) \<or> (0xF8 \<le> r \<and> r \<le> 0xFF))"

definition latin1_number :: "rune \<Rightarrow> bool" where
  "latin1_number r =
     (ascii_digit r \<or> r = 0xB2 \<or> r = 0xB3 \<or> r = 0xB9 \<or> (0xBC \<le> r \<and> r \<le> 0xBE))"

definition latin1_lower :: "rune \<Rightarrow> rune" where
  "latin1_lower r =
     (if (0x41 \<le> r \<and> r \<le> 0x5A) \<or> (0xC0 \<le> r \<and> r \<le> 0xD6) \<or> (0xD8 \<le> r \<and> r \<le> 0xDE)
      then r + 0x20 else r)"

definition latin1_tables :: unicode_tables where
  "latin1_tables = \<lparr> IsLetter = latin1_letter, IsNumber = latin1_number, ToLower = latin1_lower \<rparr>"

text \<open>
  Proof device: \<open>id_scan U pd a\<close> reads a candidate id, \<open>pd\<close> telling whether a hyphen may not
  come next; it answers \<open>Some False\<close> exactly on the ids sanitizeHeadingID leaves alone.
\<close>

fun id_scan :: "unicode_tables \<Rightarrow> bool \<Rightarrow> rune list \<Rightarrow> bool option" where
  "id_scan U pd [] = Some pd"
| "id_scan U pd (r # rs) =
     (if r = dash then (if pd then None else id_scan U True rs)
      else if (IsLetter U r \<or> IsNumber U r) \<and> ToLower U r = r then id_scan U False rs
      else None)"

subsection \<open>Byte slices, faults and the scanning primitives\<close>

abbreviation nl :: char where "nl \<equiv> CHR 0x0A"
abbreviation tab :: char where "tab \<equiv> CHR 0x09"
abbreviation sp :: char where "sp \<equiv> CHR 0x20"
abbreviation backtick :: char where "backtick \<equiv> CHR 0x60"

text \<open>
  A Go panic is a value: a function with an index or a pointer the source does not guard
  returns \<open>fault + 'a\<close>. \<open>OutOfFuel\<close> is not a Go fault: it is the answer of the fuelled
  dispatcher when its fuel does not suffice.
\<close>

datatype fault = IndexOutOfRange | NilDereference | OutOfFuel

definition bindE :: "fault + 'a \<Rightarrow> ('a \<Rightarrow> fault + 'b) \<Rightarrow> fault + 'b" where
  "bindE m f = (case m of Inl e \<Rightarrow> Inl e | Inr x \<Rightarrow> f x)"

text \<open>\<open>data[i:j]\<close>, for \<open>i \<le> j \<le> len(data)\<close>; \<open>data[i:]\<close> is \<open>drop i data\<close>.\<close>

definition slice :: "bytes \<Rightarrow> nat \<Rightarrow> nat \<Rightarrow> bytes" where
  "slice data i j = take (j - i) (drop i data)"

function skipChar :: "bytes \<Rightarrow> nat \<Rightarrow> char \<Rightarrow> nat" where
  "skipChar data i c = (if i < length data \<and> data ! i = c then skipChar data (i + 1) c else i)"
  by pat_completeness auto
termination
  by (relation "measure (\<lambda>(data, i, c). length data - i)") auto

function skipCharN :: "bytes \<Rightarrow> nat \<Rightarrow> char \<Rightarrow> nat \<Rightarrow> nat" where
  "skipCharN data i c maxN =
     (if i < length data \<and> maxN > 0 \<and> data ! i = c then skipCharN data (i + 1) c (maxN - 1) else i)"
  by pat_completeness auto
termination
  by (relation "measure (\<lambda>(data, i, c, maxN). length data - i)") auto

function skipUntilChar :: "bytes \<Rightarrow> nat \<Rightarrow> char \<Rightarrow> nat" where
  "skipUntilChar data i c =
     (if i < length data \<and> data ! i \<noteq> c then skipUntilChar data (i + 1) c else i)"
  by pat_completeness auto
termination
  by (relation "measure (\<lambda>(data, i, c). length data - i)") auto

fun backChar :: "bytes \<Rightarrow> nat \<Rightarrow> char \<Rightarrow> nat" where
  "backChar data 0 c = 0"
| "backChar data (Suc i) c = (if data ! i = c then backChar data i c else Suc i)"

fun backUntilChar :: "bytes \<Rightarrow> nat \<Rightarrow> char \<Rightarrow> nat" where
  "backUntilChar data 0 c = 0"
| "backUntilChar data (Suc i) c = (if data ! i \<noteq> c then backUntilChar data i c else Suc i)"

text \<open>
  IsSpace and IsAlnum are declared outside block.go.
  Modelled from the spec: the interior white space of a brace-delimited language
  annotation is trimmed, and a tag name is a run of letters and digits; so they are the
  ASCII white-space test and the ASCII letter-or-digit test.
\<close>

definition IsSpace :: "char \<Rightarrow> bool" where
  "IsSpace c = (c = sp \<or> c = tab \<or> c = nl \<or> c = CHR 0x0D \<or> c = CHR 0x0C \<or> c = CHR 0x0B)"

definition IsAlnum :: "char \<Rightarrow> bool" where
  "IsAlnum c =
     ((0x30 \<le> (of_char c :: nat) \<and> (of_char c :: nat) \<le> 0x39)
      \<or> (0x41 \<le> (of_char c :: nat) \<and> (of_char c :: nat) \<le> 0x5A)
      \<or> (0x61 \<le> (of_char c :: nat) \<and> (of_char c :: nat) \<le> 0x7A))"

function skipAlnum :: "bytes \<Rightarrow> nat \<Rightarrow> nat" where
  "skipAlnum data i = (if i < length data \<and> IsAlnum (data ! i) then skipAlnum data (i + 1) else i)"
  by pat_completeness auto
termination
  by (relation "measure (\<lambda>(data, i). length data - i)") auto

text \<open>IsEmpty: the loop answers \<open>None\<close> where the source returns 0 from inside it.\<close>

function IsEmpty_loop :: "bytes \<Rightarrow> nat \<Rightarrow> nat option" where
  "IsEmpty_loop data i =
     (if i < length data \<and> data ! i \<noteq> nl
      then (if data ! i \<noteq> sp \<and> data ! i \<noteq> tab then None else IsEmpty_loop data (i + 1))
      else Some i)"
  by pat_completeness auto
termination
  by (relation "measure (\<lambda>(data, i). length data - i)") auto

definition IsEmpty :: "bytes \<Rightarrow> nat" where
  "IsEmpty data =
     (if length data = 0 then 0
      else case IsEmpty_loop data 0 of
             None \<Rightarrow> 0
           | Some i \<Rightarrow> skipCharN data i nl 1)"

subsection \<open>Prefix recognizers\<close>

text \<open>
  quotePrefix. Its loop \<open>for i < 3 && i < n && data[i] == ' '\<close> is skipCharN from 0 with
  at most three steps.
\<close>

definition quotePrefix :: "bytes \<Rightarrow> nat" where
  "quotePrefix data =
     (let i = skipCharN data 0 sp 3; n = length data
      in if i < n \<and> data ! i = CHR ''>''
         then (if i + 1 < n \<and> data ! (i + 1) = sp then i + 2 else i + 1)
         else 0)"

text \<open>terminateBlockquote; the callers have \<open>beg < len(data)\<close> and \<open>end \<le> len(data)\<close>.\<close>

definition terminateBlockquote :: "bytes \<Rightarrow> nat \<Rightarrow> nat \<Rightarrow> bool" where
  "terminateBlockquote data beg end' =
     (if IsEmpty (drop beg data) \<le> 0 then False
      else if end' \<ge> length data then True
      else quotePrefix (drop end' data) = 0 \<and> IsEmpty (drop end' data) = 0)"

definition codePrefix :: "bytes \<Rightarrow> nat" where
  "codePrefix data =
     (let n = length data
      in if n \<ge> 1 \<and> data ! 0 = tab then 1
         else if n \<ge> 4 \<and> data ! 3 = sp \<and> data ! 2 = sp \<and> data ! 1 = sp \<and> data ! 0 = sp then 4
         else 0)"

text \<open>
  uliPrefix, oliPrefix. The source compares \<open>i >= len(data)-1\<close> on Go's signed int; on
  natural numbers that is \<open>i + 1 \<ge> length data\<close>.
\<close>

definition uliPrefix :: "bytes \<Rightarrow> nat" where
  "uliPrefix data =
     (let i = skipCharN data 0 sp 3
      in if i + 1 \<ge> length data then 0
         else if (data ! i \<noteq> CHR ''*'' \<and> data ! i \<noteq> CHR ''+'' \<and> data ! i \<noteq> CHR ''-'')
                 \<or> (data ! (i + 1) \<noteq> sp \<and> data ! (i + 1) \<noteq> tab) then 0
         else i + 2)"

definition isDigit :: "char \<Rightarrow> bool" where
  "isDigit c = (0x30 \<le> (of_char c :: nat) \<and> (of_char c :: nat) \<le> 0x39)"

function skipDigits :: "bytes \<Rightarrow> nat \<Rightarrow> nat" where
  "skipDigits data i = (if i < length data \<and> isDigit (data ! i) then skipDigits data (i + 1) else i)"
  by pat_completeness auto
termination
  by (relation "measure (\<lambda>(data, i). length data - i)") auto

definition oliPrefix :: "bytes \<Rightarrow> nat" where
  "oliPrefix data =
     (let start = skipCharN data 0 sp 3;
          i = skipDigits data start
      in if start = i \<or> i + 1 \<ge> length data then 0
         else if (data ! i \<noteq> CHR ''.'' \<and> data ! i \<noteq> CHR '')'')
                 \<or> \<not> (data ! (i + 1) = sp \<or> data ! (i + 1) = tab) then 0
         else i + 2)"

definition dliPrefix :: "bytes \<Rightarrow> nat" where
  "dliPrefix data =
     (if length data < 2 then 0
      else if data ! 0 \<noteq> CHR '':'' \<or> \<not> (data ! 1 = sp \<or> data ! 1 = tab) then 0
      else skipChar data 0 sp + 2)"

subsection \<open>Fence lines and fenced code blocks\<close>

text \<open>
  syntaxRange returns \<open>(syntaxStart, syn)\<close> and moves the caller's index through a
  pointer; the model returns the moved index as a third component. The caller has
  \<open>i < len(data)\<close>.
\<close>

function syntaxBrace :: "bytes \<Rightarrow> nat \<Rightarrow> nat" where
  "syntaxBrace data i =
     (if i < length data \<and> data ! i \<noteq> CHR ''}'' \<and> data ! i \<noteq> nl then syntaxBrace data (i + 1) else i)"
  by pat_completeness auto
termination
  by (relation "measure (\<lambda>(data, i). length data - i)") auto

fun trimFront :: "bytes \<Rightarrow> nat \<Rightarrow> nat \<Rightarrow> nat \<times> nat" where
  "trimFront data syntaxStart 0 = (syntaxStart, 0)"
| "trimFront data syntaxStart (Suc syn) =
     (if IsSpace (data ! syntaxStart) then trimFront data (syntaxStart + 1) syn
      else (syntaxStart, Suc syn))"

fun trimBack :: "bytes \<Rightarrow> nat \<Rightarrow> nat \<Rightarrow> nat" where
  "trimBack data syntaxStart 0 = 0"
| "trimBack data syntaxStart (Suc syn) =
     (if IsSpace (data ! (syntaxStart + Suc syn - 1)) then trimBack data syntaxStart syn
      else Suc syn)"

definition syntaxRange :: "bytes \<Rightarrow> nat \<Rightarrow> nat \<times> nat \<times> nat" where
  "syntaxRange data iout =
     (let n = length data
      in if data ! iout = CHR ''{''
         then (let i = syntaxBrace data (iout + 1);
                   syn = i - (iout + 1)
               in if i \<ge> n \<or> data ! i \<noteq> CHR ''}'' then (0, 0, iout)
                  else (case trimFront data (iout + 1) syn of
                          (syntaxStart, syn1) \<Rightarrow> (syntaxStart, trimBack data syntaxStart syn1, i + 1)))
         else (let i = skipUntilChar data iout nl in (iout, i - iout, i)))"

text \<open>
  isFenceLine returns \<open>(end, marker)\<close> and writes the syntax through a pointer when the
  pointer is not nil; the model returns \<open>(end, marker, syntax)\<close>, the third component
  being what the pointer receives. \<open>fenceLineEnd\<close> is the common tail of the function,
  from \<open>i = skipChar(data, i, ' ')\<close> on.
\<close>

definition fenceLineEnd :: "bytes \<Rightarrow> nat \<Rightarrow> bytes \<Rightarrow> bytes \<Rightarrow> nat \<times> bytes \<times> bytes" where
  "fenceLineEnd data i0 marker syn =
     (let n = length data; i = skipChar data i0 sp
      in if i \<ge> n \<or> data ! i \<noteq> nl
         then (if i = n then (i, marker, syn) else (0, [], syn))
         else (i + 1, marker, syn))"

definition isFenceLine :: "bytes \<Rightarrow> bytes \<Rightarrow> nat \<times> bytes \<times> bytes" where
  "isFenceLine data oldmarker =
     (let n = length data; i0 = skipCharN data 0 sp 3
      in if i0 \<ge> n then (0, [], [])
         else if data ! i0 \<noteq> CHR ''~'' \<and> data ! i0 \<noteq> backtick then (0, [], [])
         else (let c = data ! i0;
                   i = skipChar data i0 c;
                   sz = i - i0
               in if sz < 3 then (0, [], [])
                  else (let marker = slice data (i - sz) i
                        in if oldmarker \<noteq> [] \<and> marker \<noteq> oldmarker then (0, [], [])
                           else if oldmarker = []
                           then (let i1 = skipChar data i sp
                                 in if i1 \<ge> n then (if i1 = n then (i1, marker, []) else (0, [], []))
                                    else (case syntaxRange data i1 of
                                            (syntaxStart, syntaxLen, i2) \<Rightarrow>
                                              if syntaxStart = 0 \<and> syntaxLen = 0 then (0, [], [])
                                              else fenceLineEnd data i2 marker
                                                     (slice data syntaxStart (syntaxStart + syntaxLen))))
                           else fenceLineEnd data i marker [])))"

text \<open>
  Two predicates of the statements about block quotes. A buffer starts with a blank line
  when it is not empty and the bytes before its first newline are spaces and tabs; it
  starts with a quote line at offset \<open>k\<close> when \<open>k \<le> 3\<close> spaces are followed by the quote sign.
\<close>

definition blankLine :: "bytes \<Rightarrow> bool" where
  "blankLine d = (d \<noteq> [] \<and> (\<forall>c \<in> set (takeWhile (\<lambda>c. c \<noteq> nl) d). c = sp \<or> c = tab))"

definition quoteLine :: "bytes \<Rightarrow> nat \<Rightarrow> bool" where
  "quoteLine data k = (k \<le> 3 \<and> k < length data \<and> take k data = replicate k sp \<and> data ! k = CHR ''>'')"

subsection \<open>Extensions and the arguments of an ordered list\<close>

text \<open>
  The extension flags are constants declared outside block.go.
  Modelled from the spec: an enumerated, independently combinable set of flags; a set of
  extensions stands for the bit mask, and \<open>p.extensions&X != 0\<close> is membership.
\<close>

datatype extension =
    NoIntraEmphasis | Tables | FencedCode | Autolink | Strikethrough | LaxHTMLBlocks
  | SpaceHeadings | HardLineBreak | NonBlockingSpace | TabSizeEight | Footnotes
  | NoEmptyLineBeforeBlock | HeadingIDs | Titleblock | AutoHeadingIDs | BackslashLineBreak
  | DefinitionLists | MathJax | OrderedListStart | Attributes | SuperSubscript
  | EmptyLinesBreakList | Includes | Mmark

text \<open>
  \<open>strconv.Atoi\<close> of Go's library on a 64-bit platform, without the error the caller
  drops: an optional sign and decimal digits give their value, cut to the range of int64;
  anything else gives 0.
\<close>

fun digitsValue :: "bytes \<Rightarrow> int \<Rightarrow> int option" where
  "digitsValue [] n = Some n"
| "digitsValue (c # cs) n =
     (if isDigit c then digitsValue cs (n * 10 + (int (of_char c) - 0x30)) else None)"

definition Atoi :: "bytes \<Rightarrow> int" where
  "Atoi s =
     (if s = [] then 0
      else (let body = (if hd s = CHR ''-'' \<or> hd s = CHR ''+'' then tl s else s)
            in if body = [] then 0
               else (case digitsValue body 0 of
                       None \<Rightarrow> 0
                     | Some v \<Rightarrow> if hd s = CHR ''-'' then max (- v) (- (2 ^ 63)) else min v (2 ^ 63 - 1))))"

text \<open>
  The start number and the delimiter the dispatcher passes to \<open>list\<close> for an ordered list
  (Block, the branch of oliPrefix); \<open>i\<close> is what oliPrefix returned.
\<close>

definition orderedListArgs :: "extension set \<Rightarrow> bytes \<Rightarrow> nat \<Rightarrow> int \<times> char" where
  "orderedListArgs ext data i =
     (if i > 2
      then (let start = (if OrderedListStart \<in> ext
                         then (let s = Atoi (take (i - 2) data) in if s = 1 then 0 else s)
                         else 0)
            in (start, data ! (i - 2)))
      else (0, CHR ''.''))"

section \<open>Properties of the heading identifiers and of the scanning primitives\<close>

subsection \<open>sanitizeHeadingID\<close>

lemma id_scan_append: "id_scan U pd (xs @ ys) = (case id_scan U pd xs of None \<Rightarrow> None | Some q \<Rightarrow> id_scan U q ys)"
  by (induction xs arbitrary: pd) auto

lemma go_dash: "go_unicode U \<Longrightarrow> \<not> IsLetter U dash \<and> \<not> IsNumber U dash"
  by (simp add: go_unicode_def dash_def ascii_letter_def ascii_digit_def)

lemma loop_fix:
  assumes "go_unicode U"
  shows "id_scan U pd rest = Some False \<Longrightarrow> (pd \<longrightarrow> (fd \<longleftrightarrow> acc \<noteq> [])) \<Longrightarrow> (\<not> pd \<longrightarrow> \<not> fd \<and> acc \<noteq> [])
    \<Longrightarrow> sanitize_loop U rest acc fd = acc @ (if fd then [dash] else []) @ rest"
proof (induction rest arbitrary: pd fd acc)
  case Nil
  then show ?case by auto
next
  case (Cons r rs)
  show ?case
  proof (cases "r = dash")
    case True
    with Cons.prems have pd: "\<not> pd" and s: "id_scan U True rs = Some False" by (auto split: if_splits)
    from pd Cons.prems have "\<not> fd" "acc \<noteq> []" by auto
    with Cons.IH[OF s, of True acc] True go_dash[OF assms] show ?thesis by simp
  next
    case False
    with Cons.prems have al: "IsLetter U r \<or> IsNumber U r" and fx: "ToLower U r = r" and s: "id_scan U False rs = Some False"
      by (auto split: if_splits)
    show ?thesis using Cons.IH[OF s, of False "(if fd \<and> length acc > 0 then acc @ [dash] else acc) @ [r]"] al fx Cons.prems(2,3)
      by (cases pd) auto
  qed
qed

lemma loop_scan:
  assumes "go_unicode U"
  shows "(acc = [] \<or> id_scan U True acc = Some False) \<Longrightarrow>
     sanitize_loop U s acc fd = [] \<or> id_scan U True (sanitize_loop U s acc fd) = Some False"
proof (induction s arbitrary: acc fd)
  case Nil
  then show ?case by auto
next
  case (Cons r rs)
  show ?case
  proof (cases "IsLetter U r \<or> IsNumber U r")
    case True
    let ?l = "ToLower U r"
    from assms True have l: "(IsLetter U ?l \<or> IsNumber U ?l) \<and> ToLower U ?l = ?l"
      unfolding go_unicode_def by blast
    have nd: "?l \<noteq> dash" using l go_dash[OF assms] by auto
    have "id_scan U True ((if fd \<and> length acc > 0 then acc @ [dash] else acc) @ [?l]) = Some False"
      using Cons.prems l nd by (auto simp: id_scan_append)
    from Cons.IH[of "(if fd \<and> length acc > 0 then acc @ [dash] else acc) @ [?l]" False, OF disjI2, OF this]
    show ?thesis using True by simp
  next
    case False
    then show ?thesis using Cons.IH[of acc True] Cons.prems by simp
  qed
qed

lemma id_scan_empty_id: "go_unicode U \<Longrightarrow> id_scan U True empty_id = Some False"
  by (simp add: go_unicode_def empty_id_def dash_def ascii_letter_def ascii_digit_def ascii_lower_def)

lemma sanitize_scan: "go_unicode U \<Longrightarrow> id_scan U True (sanitizeHeadingID U x) = Some False"
  using loop_scan[of U "[]" x False] id_scan_empty_id[of U]
  by (auto simp: sanitizeHeadingID_def Let_def)

lemma id_scan_ne: "id_scan U True a = Some False \<Longrightarrow> a \<noteq> []"
  by auto

lemma sanitize_fix: "go_unicode U \<Longrightarrow> id_scan U True a = Some False \<Longrightarrow> sanitizeHeadingID U a = a"
  using loop_fix[of U True a False "[]"] by (auto simp: sanitizeHeadingID_def Let_def)

lemma loop_nonalnum: "\<forall>r\<in>set x. \<not> IsLetter U r \<and> \<not> IsNumber U r \<Longrightarrow> sanitize_loop U x acc fd = acc"
  by (induction x arbitrary: fd) auto

text \<open>
  C8 (amended). Deriving the id again from a derived id changes nothing, and a heading
  text in which no rune is a letter for \<open>unicode.IsLetter\<close> or a number for
  \<open>unicode.IsNumber\<close> gets the id \<open>empty\<close>.
\<close>

theorem C8_sanitizeHeadingID_idempotent: "go_unicode U \<Longrightarrow> sanitizeHeadingID U (sanitizeHeadingID U x) = sanitizeHeadingID U x
   \<and> ((\<forall>r\<in>set x. \<not> IsLetter U r \<and> \<not> IsNumber U r) \<longrightarrow> sanitizeHeadingID U x = empty_id)"
  using sanitize_fix[OF _ sanitize_scan] loop_nonalnum[of x U "[]" False]
  by (auto simp: sanitizeHeadingID_def)

lemma latin1_go: "go_unicode latin1_tables"
  unfolding go_unicode_def latin1_tables_def
  by (simp add: latin1_letter_def latin1_number_def latin1_lower_def ascii_letter_def ascii_digit_def ascii_lower_def)





lemma loop_set:
  "set (sanitize_loop U x acc fd) \<subseteq>
     set acc \<union> {dash} \<union> ToLower U ` {r \<in> set x. IsLetter U r \<or> IsNumber U r}"
proof (induction x arbitrary: acc fd)
  case Nil
  then show ?case by auto
next
  case (Cons r rs)
  show ?case
  proof (cases "IsLetter U r \<or> IsNumber U r")
    case True
    define acc' where "acc' = (if fd \<and> length acc > 0 then acc @ [dash] else acc) @ [ToLower U r]"
    have a: "set acc' \<subseteq> set acc \<union> {dash} \<union> {ToLower U r}" by (auto simp: acc'_def)
    have e: "sanitize_loop U (r # rs) acc fd = sanitize_loop U rs acc' False"
      using True by (simp add: acc'_def)
    have "ToLower U r \<in> ToLower U ` {q \<in> set (r # rs). IsLetter U q \<or> IsNumber U q}"
      using True by auto
    moreover have "ToLower U ` {q \<in> set rs. IsLetter U q \<or> IsNumber U q}
        \<subseteq> ToLower U ` {q \<in> set (r # rs). IsLetter U q \<or> IsNumber U q}" by auto
    ultimately show ?thesis using Cons.IH[of acc' False] a unfolding e by blast
  next
    case False
    have "ToLower U ` {q \<in> set rs. IsLetter U q \<or> IsNumber U q}
        \<subseteq> ToLower U ` {q \<in> set (r # rs). IsLetter U q \<or> IsNumber U q}" by auto
    then show ?thesis using Cons.IH[of acc True] False by (simp del: set_simps) blast
  qed
qed

lemma id_scan_elems: "id_scan U pd a = Some q \<Longrightarrow> c \<in> set a \<Longrightarrow>
    c = dash \<or> ((IsLetter U c \<or> IsNumber U c) \<and> ToLower U c = c)"
  by (induction a arbitrary: pd) (auto split: if_splits)

lemma id_scan_hd: "id_scan U True a = Some q \<Longrightarrow> a \<noteq> [] \<Longrightarrow> hd a \<noteq> dash"
  by (cases a) (auto split: if_splits)

lemma id_scan_last: "id_scan U pd a = Some False \<Longrightarrow> a \<noteq> [] \<Longrightarrow> last a \<noteq> dash"
  by (induction a arbitrary: pd) (auto split: if_splits)

lemma id_scan_adjacent: "id_scan U pd a = Some q \<Longrightarrow> Suc i < length a \<Longrightarrow> \<not> (a ! i = dash \<and> a ! Suc i = dash)"
proof (induction a arbitrary: pd i)
  case Nil
  then show ?case by simp
next
  case (Cons r rs)
  show ?case
  proof (cases i)
    case 0
    then show ?thesis using Cons.prems by (cases rs) (auto split: if_splits)
  next
    case (Suc j)
    then show ?thesis using Cons.prems Cons.IH[of _ j] by (auto split: if_splits)
  qed
qed

lemma ascii_out:
  assumes "go_unicode U" "r < 0x80" "IsLetter U r \<or> IsNumber U r"
  shows "ascii_digit (ToLower U r) \<or> (0x61 \<le> ToLower U r \<and> ToLower U r \<le> 0x7A)"
proof -
  from assms(1,2) have "IsLetter U r = ascii_letter r" "IsNumber U r = ascii_digit r" "ToLower U r = ascii_lower r"
    unfolding go_unicode_def by blast+
  with assms(3) show ?thesis
    by (auto simp: ascii_letter_def ascii_digit_def ascii_lower_def)
qed

lemma empty_id_ascii: "c \<in> set empty_id \<Longrightarrow> 0x61 \<le> c \<and> c \<le> 0x7A"
  by (auto simp: empty_id_def)

lemma sanitize_ascii:
  assumes "go_unicode U" "\<forall>r\<in>set x. r < 0x80" "c \<in> set (sanitizeHeadingID U x)"
  shows "c = dash \<or> ascii_digit c \<or> (0x61 \<le> c \<and> c \<le> 0x7A)"
proof (cases "sanitize_loop U x [] False = []")
  case True
  with assms(3) have "c \<in> set empty_id" by (simp add: sanitizeHeadingID_def)
  then show ?thesis using empty_id_ascii by blast
next
  case False
  with assms(3) have "c \<in> set (sanitize_loop U x [] False)" by (simp add: sanitizeHeadingID_def)
  with loop_set[of U x "[]" False] have "c = dash \<or> (\<exists>r\<in>set x. (IsLetter U r \<or> IsNumber U r) \<and> c = ToLower U r)"
    by auto
  then show ?thesis using ascii_out[OF assms(1)] assms(2) by blast
qed

text \<open>
  C10, amended. The id is never empty; it consists of hyphens and of runes that are letters
  or numbers left alone by \<open>unicode.ToLower\<close> (lower-case ASCII letters and digits when the
  heading text is ASCII); a hyphen stands neither first nor last nor next to another hyphen;
  the empty text gets the id \<open>empty\<close>.
\<close>

theorem C10_sanitizeHeadingID_shape:
  assumes "go_unicode U"
  shows "sanitizeHeadingID U x \<noteq> []
    \<and> (\<forall>c\<in>set (sanitizeHeadingID U x). c = dash \<or> ((IsLetter U c \<or> IsNumber U c) \<and> ToLower U c = c))
    \<and> ((\<forall>r\<in>set x. r < 0x80) \<longrightarrow>
         (\<forall>c\<in>set (sanitizeHeadingID U x). c = dash \<or> ascii_digit c \<or> (0x61 \<le> c \<and> c \<le> 0x7A)))
    \<and> hd (sanitizeHeadingID U x) \<noteq> dash
    \<and> last (sanitizeHeadingID U x) \<noteq> dash
    \<and> (\<forall>i. Suc i < length (sanitizeHeadingID U x) \<longrightarrow>
          \<not> (sanitizeHeadingID U x ! i = dash \<and> sanitizeHeadingID U x ! Suc i = dash))
    \<and> sanitizeHeadingID U [] = empty_id"
proof -
  have s: "id_scan U True (sanitizeHeadingID U x) = Some False" by (rule sanitize_scan[OF assms])
  have ne: "sanitizeHeadingID U x \<noteq> []" using s by auto
  show ?thesis
    using ne id_scan_elems[OF s] id_scan_hd[OF s ne] id_scan_last[OF s ne] id_scan_adjacent[OF s]
      sanitize_ascii[OF assms, of x]
    by (auto simp: sanitizeHeadingID_def)
qed

theorem C8_witness:
  "go_unicode latin1_tables
   \<and> sanitizeHeadingID latin1_tables (sanitizeHeadingID latin1_tables [0x48, 0x69, 0x2C, 0x20, 0x21, 0x59, 0x6F])
       = [0x68, 0x69, 0x2D, 0x79, 0x6F]
   \<and> sanitizeHeadingID latin1_tables [0x2C, 0x20, 0x21] = empty_id"
  using C8_sanitizeHeadingID_idempotent [OF latin1_go, of "[0x48, 0x69, 0x2C, 0x20, 0x21, 0x59, 0x6F]"]
    C8_sanitizeHeadingID_idempotent [OF latin1_go, of "[0x2C, 0x20, 0x21]"] latin1_go
  by (simp add: sanitizeHeadingID_def latin1_tables_def latin1_letter_def latin1_number_def
      latin1_lower_def ascii_letter_def ascii_digit_def ascii_lower_def dash_def)

text \<open>
  C8, the claim as it stands: the heading text that consists of the vulgar fraction one
  quarter (U+00BC) has no letter and no digit (the rune is of the category No, not of the
  decimal digits), but it is a number for \<open>unicode.IsNumber\<close>; its id is the rune itself and
  not \<open>empty\<close>.
\<close>

theorem C8_counterexample:
  "\<not> IsLetter latin1_tables 0xBC \<and> \<not> ascii_digit 0xBC
   \<and> sanitizeHeadingID latin1_tables [0xBC] = [0xBC]
   \<and> sanitizeHeadingID latin1_tables [0xBC] \<noteq> empty_id"
  by (simp add: sanitizeHeadingID_def latin1_tables_def latin1_letter_def latin1_number_def
      latin1_lower_def ascii_letter_def ascii_digit_def ascii_lower_def dash_def empty_id_def)

text \<open>
  C10 as stated fails: the heading text consisting of the superscript two (U+00B2, a number
  for \<open>unicode.IsNumber\<close>) is its own id, and that rune is no letter, no digit and no hyphen.
\<close>

theorem C10_counterexample:
  "sanitizeHeadingID latin1_tables [0xB2] = [0xB2]
   \<and> \<not> IsLetter latin1_tables 0xB2 \<and> \<not> ascii_digit 0xB2 \<and> (0xB2 :: rune) \<noteq> dash"
  by (simp add: sanitizeHeadingID_def latin1_tables_def latin1_letter_def latin1_number_def
      latin1_lower_def ascii_letter_def ascii_digit_def ascii_lower_def dash_def)

theorem C10_witness:
  "go_unicode latin1_tables
   \<and> sanitizeHeadingID latin1_tables [0x48, 0x69, 0x2C, 0x20, 0x21, 0x59, 0x6F] = [0x68, 0x69, 0x2D, 0x79, 0x6F]
   \<and> hd (sanitizeHeadingID latin1_tables [0x48, 0x69, 0x2C, 0x20, 0x21, 0x59, 0x6F]) \<noteq> dash
   \<and> sanitizeHeadingID latin1_tables [] = empty_id"
  using C10_sanitizeHeadingID_shape [OF latin1_go, of "[0x48, 0x69, 0x2C, 0x20, 0x21, 0x59, 0x6F]"] latin1_go
  by (simp add: sanitizeHeadingID_def latin1_tables_def latin1_letter_def latin1_number_def
      latin1_lower_def ascii_letter_def ascii_digit_def ascii_lower_def dash_def)

subsection \<open>Scanning primitives\<close>

declare skipChar.simps [simp del] skipCharN.simps [simp del] skipUntilChar.simps [simp del]
  skipAlnum.simps [simp del] skipDigits.simps [simp del] IsEmpty_loop.simps [simp del]
  syntaxBrace.simps [simp del]

lemma skipCharN_ge: "i \<le> skipCharN data i c m"
proof (induction data i c m rule: skipCharN.induct)
  case (1 data i c m)
  then show ?case by (subst skipCharN.simps) (auto simp: Suc_leD)
qed

lemma skipCharN_le_add: "skipCharN data i c m \<le> i + m"
proof (induction data i c m rule: skipCharN.induct)
  case (1 data i c m)
  then show ?case by (subst skipCharN.simps) auto
qed

lemma skipCharN_le_len: "i \<le> length data \<Longrightarrow> skipCharN data i c m \<le> length data"
proof (induction data i c m rule: skipCharN.induct)
  case (1 data i c m)
  then show ?case by (subst skipCharN.simps) auto
qed

lemma skipCharN_run: "i \<le> j \<Longrightarrow> j < skipCharN data i c m \<Longrightarrow> data ! j = c"
proof (induction data i c m rule: skipCharN.induct)
  case (1 data i c m)
  show ?case
  proof (cases "i < length data \<and> m > 0 \<and> data ! i = c")
    case True
    then have e: "skipCharN data i c m = skipCharN data (i + 1) c (m - 1)"
      by (subst skipCharN.simps) simp
    show ?thesis
    proof (cases "j = i")
      case True
      with \<open>i < length data \<and> m > 0 \<and> data ! i = c\<close> show ?thesis by simp
    next
      case False
      with "1.prems" have "i + 1 \<le> j" by simp
      with "1.IH" True "1.prems" e show ?thesis by simp
    qed
  next
    case False
    then have "skipCharN data i c m = i" by (subst skipCharN.simps) auto
    with "1.prems" show ?thesis by simp
  qed
qed

lemma skipCharN_stop:
  "skipCharN data i c m = i + m \<or> skipCharN data i c m \<ge> length data
   \<or> data ! (skipCharN data i c m) \<noteq> c"
proof (induction data i c m rule: skipCharN.induct)
  case (1 data i c m)
  show ?case
  proof (cases "i < length data \<and> m > 0 \<and> data ! i = c")
    case True
    then have e: "skipCharN data i c m = skipCharN data (i + 1) c (m - 1)"
      by (subst skipCharN.simps) simp
    from "1.IH" True show ?thesis unfolding e by auto
  next
    case False
    then have "skipCharN data i c m = i" by (subst skipCharN.simps) auto
    with False show ?thesis by auto
  qed
qed

lemma skipCharN_eqI:
  assumes "i \<le> r" "r \<le> i + m" "\<forall>j. i \<le> j \<and> j < r \<longrightarrow> j < length data \<and> data ! j = c"
    and "r = i + m \<or> r \<ge> length data \<or> data ! r \<noteq> c"
  shows "skipCharN data i c m = r"
  using assms
proof (induction data i c m rule: skipCharN.induct)
  case (1 data i c m)
  show ?case
  proof (cases "i = r")
    case True
    with "1.prems" show ?thesis by (subst skipCharN.simps) auto
  next
    case False
    with "1.prems" have lt: "i < r" by simp
    with "1.prems"(3) have c: "i < length data \<and> data ! i = c" by auto
    from lt "1.prems"(2) have m: "m > 0" by simp
    have "skipCharN data (i + 1) c (m - 1) = r"
      using "1.IH" c m lt "1.prems" by auto
    with c m show ?thesis by (subst skipCharN.simps) simp
  qed
qed

lemma skipChar_ge: "i \<le> skipChar data i c"
proof (induction data i c rule: skipChar.induct)
  case (1 data i c)
  then show ?case by (subst skipChar.simps) (auto simp: Suc_leD)
qed

lemma skipChar_le_len: "i \<le> length data \<Longrightarrow> skipChar data i c \<le> length data"
proof (induction data i c rule: skipChar.induct)
  case (1 data i c)
  then show ?case by (subst skipChar.simps) auto
qed

lemma skipChar_run: "i \<le> j \<Longrightarrow> j < skipChar data i c \<Longrightarrow> data ! j = c"
proof (induction data i c rule: skipChar.induct)
  case (1 data i c)
  show ?case
  proof (cases "i < length data \<and> data ! i = c")
    case True
    then have e: "skipChar data i c = skipChar data (i + 1) c"
      by (subst skipChar.simps) simp
    show ?thesis
    proof (cases "j = i")
      case True
      with \<open>i < length data \<and> data ! i = c\<close> show ?thesis by simp
    next
      case False
      with "1.prems" have "i + 1 \<le> j" by simp
      with "1.IH" True "1.prems" e show ?thesis by simp
    qed
  next
    case False
    then have "skipChar data i c = i" by (subst skipChar.simps) auto
    with "1.prems" show ?thesis by simp
  qed
qed

lemma skipChar_stop: "skipChar data i c \<ge> length data \<or> data ! (skipChar data i c) \<noteq> c"
proof (induction data i c rule: skipChar.induct)
  case (1 data i c)
  show ?case
  proof (cases "i < length data \<and> data ! i = c")
    case True
    then have e: "skipChar data i c = skipChar data (i + 1) c"
      by (subst skipChar.simps) simp
    from "1.IH" True show ?thesis unfolding e by auto
  next
    case False
    then have "skipChar data i c = i" by (subst skipChar.simps) auto
    with False show ?thesis by auto
  qed
qed

lemma skipChar_eqI:
  assumes "i \<le> r" "\<forall>j. i \<le> j \<and> j < r \<longrightarrow> j < length data \<and> data ! j = c"
    and "r \<ge> length data \<or> data ! r \<noteq> c"
  shows "skipChar data i c = r"
  using assms
proof (induction "r - i" arbitrary: i)
  case 0
  then show ?case by (subst skipChar.simps) auto
next
  case (Suc k)
  then have lt: "i < r" by simp
  with Suc.prems(2) have c: "i < length data \<and> data ! i = c" by auto
  have "skipChar data (i + 1) c = r"
    using Suc.hyps(1)[of "i + 1"] Suc.hyps(2) Suc.prems lt by auto
  with c show ?case by (subst skipChar.simps) simp
qed

lemma skipUntilChar_ge: "i \<le> skipUntilChar data i c"
proof (induction data i c rule: skipUntilChar.induct)
  case (1 data i c)
  then show ?case by (subst skipUntilChar.simps) (auto simp: Suc_leD)
qed

lemma skipUntilChar_le_len: "i \<le> length data \<Longrightarrow> skipUntilChar data i c \<le> length data"
proof (induction data i c rule: skipUntilChar.induct)
  case (1 data i c)
  then show ?case by (subst skipUntilChar.simps) auto
qed

lemma skipUntilChar_run: "i \<le> j \<Longrightarrow> j < skipUntilChar data i c \<Longrightarrow> data ! j \<noteq> c"
proof (induction data i c rule: skipUntilChar.induct)
  case (1 data i c)
  show ?case
  proof (cases "i < length data \<and> data ! i \<noteq> c")
    case True
    then have e: "skipUntilChar data i c = skipUntilChar data (i + 1) c"
      by (subst skipUntilChar.simps) simp
    show ?thesis
    proof (cases "j = i")
      case True
      with \<open>i < length data \<and> data ! i \<noteq> c\<close> show ?thesis by simp
    next
      case False
      with "1.prems" have "i + 1 \<le> j" by simp
      with "1.IH" True "1.prems" e show ?thesis by simp
    qed
  next
    case False
    then have "skipUntilChar data i c = i" by (subst skipUntilChar.simps) auto
    with "1.prems" show ?thesis by simp
  qed
qed

lemma skipUntilChar_stop:
  "skipUntilChar data i c \<ge> length data \<or> data ! (skipUntilChar data i c) = c"
proof (induction data i c rule: skipUntilChar.induct)
  case (1 data i c)
  show ?case
  proof (cases "i < length data \<and> data ! i \<noteq> c")
    case True
    then have e: "skipUntilChar data i c = skipUntilChar data (i + 1) c"
      by (subst skipUntilChar.simps) simp
    from "1.IH" True show ?thesis unfolding e by auto
  next
    case False
    then have "skipUntilChar data i c = i" by (subst skipUntilChar.simps) auto
    with False show ?thesis by auto
  qed
qed

lemma skipUntilChar_eqI:
  assumes "i \<le> r" "\<forall>j. i \<le> j \<and> j < r \<longrightarrow> j < length data \<and> data ! j \<noteq> c"
    and "r \<ge> length data \<or> data ! r = c"
  shows "skipUntilChar data i c = r"
  using assms
proof (induction "r - i" arbitrary: i)
  case 0
  then show ?case by (subst skipUntilChar.simps) auto
next
  case (Suc k)
  then have lt: "i < r" by simp
  with Suc.prems(2) have c: "i < length data \<and> data ! i \<noteq> c" by auto
  have "skipUntilChar data (i + 1) c = r"
    using Suc.hyps(1)[of "i + 1"] Suc.hyps(2) Suc.prems lt by auto
  with c show ?case by (subst skipUntilChar.simps) simp
qed

subsection \<open>Blank lines and block quotes\<close>









lemma skipCharN_sp_take:
  "take (skipCharN data 0 sp 3) data = replicate (skipCharN data 0 sp 3) sp"
proof -
  have l: "skipCharN data 0 sp 3 \<le> length data" by (rule skipCharN_le_len) simp
  show ?thesis
  proof (rule nth_equalityI)
    show "length (take (skipCharN data 0 sp 3) data) = length (replicate (skipCharN data 0 sp 3) sp)"
      using l by simp
  next
    fix i assume "i < length (take (skipCharN data 0 sp 3) data)"
    then have i: "i < skipCharN data 0 sp 3" by simp
    then have "data ! i = sp" using skipCharN_run[of 0 i data sp 3] by simp
    with i show "take (skipCharN data 0 sp 3) data ! i = replicate (skipCharN data 0 sp 3) sp ! i"
      by simp
  qed
qed



subsection \<open>Ordered lists: start number and delimiter\<close>

lemma skipDigits_ge: "i \<le> skipDigits data i"
proof (induction data i rule: skipDigits.induct)
  case (1 data i)
  then show ?case by (subst skipDigits.simps) (auto simp: Suc_leD)
qed

lemma oliPrefix_pos:
  assumes "oliPrefix data = i" "i > 0"
  shows "i \<ge> 3 \<and> i \<le> length data \<and> (data ! (i - 2) = CHR ''.'' \<or> data ! (i - 2) = CHR '')'')
         \<and> (data ! (i - 1) = sp \<or> data ! (i - 1) = tab)"
proof -
  define start where "start = skipCharN data 0 sp 3"
  define j where "j = skipDigits data start"
  have "start \<le> j" unfolding j_def by (rule skipDigits_ge)
  with assms show ?thesis
    by (auto simp: oliPrefix_def Let_def start_def[symmetric] j_def[symmetric] split: if_splits)
qed

text \<open>
  C6, amended. For an ordered-list prefix the start number passed to the list is not zero
  only when OrderedListStart is enabled and the number read is not 1 (a start of 1 is
  recorded as 0); the delimiter byte is the one of the prefix whether or not the
  extension is enabled.
\<close>

theorem C6_orderedListArgs:
  assumes "oliPrefix data = i" "i > 0"
  shows "snd (orderedListArgs ext data i) = data ! (i - 2)
    \<and> (snd (orderedListArgs ext data i) = CHR ''.'' \<or> snd (orderedListArgs ext data i) = CHR '')'')
    \<and> (fst (orderedListArgs ext data i) \<noteq> 0 \<longrightarrow>
          OrderedListStart \<in> ext \<and> Atoi (take (i - 2) data) \<noteq> 1
          \<and> fst (orderedListArgs ext data i) = Atoi (take (i - 2) data))
    \<and> (OrderedListStart \<in> ext \<and> Atoi (take (i - 2) data) \<noteq> 1 \<longrightarrow>
          fst (orderedListArgs ext data i) = Atoi (take (i - 2) data))"
  using oliPrefix_pos[OF assms] by (auto simp: orderedListArgs_def Let_def)

theorem C6_witness:
  "oliPrefix (''7) x'' @ [nl]) = 3
   \<and> orderedListArgs {OrderedListStart} (''7) x'' @ [nl]) 3 = (7, CHR '')'')
   \<and> orderedListArgs {OrderedListStart} (''1. x'' @ [nl]) 3 = (0, CHR ''.'')"
proof -
  have a: "oliPrefix (''7) x'' @ [nl]) = 3"
    by (simp add: oliPrefix_def skipCharN.simps skipDigits.simps isDigit_def)
  have b: "oliPrefix (''1. x'' @ [nl]) = 3"
    by (simp add: oliPrefix_def skipCharN.simps skipDigits.simps isDigit_def)
  from C6_orderedListArgs [OF a, of "{OrderedListStart}"] C6_orderedListArgs [OF b, of "{OrderedListStart}"] a
  show ?thesis
    by (simp add: orderedListArgs_def Atoi_def isDigit_def)
qed

text \<open>
  C6 as stated fails: with OrderedListStart disabled the list still gets the delimiter of
  the prefix, here the closing parenthesis instead of the default full stop.
\<close>

theorem C6_counterexample:
  "OrderedListStart \<notin> ({} :: extension set)
   \<and> oliPrefix (''2) x'' @ [nl]) = 3
   \<and> orderedListArgs {} (''2) x'' @ [nl]) 3 = (0, CHR '')'')"
  by (simp add: oliPrefix_def skipCharN.simps skipDigits.simps isDigit_def orderedListArgs_def)

subsection \<open>The loop of fencedCodeBlock\<close>

text \<open>
  The loop looks for the closing fence line by line from \<open>beg\<close>, copying the lines it
  passes to \<open>work\<close>; \<open>None\<close> is the source's \<open>return 0\<close> from inside the loop. The caller
  has \<open>beg < len(data)\<close>.
\<close>

function fenceLoop :: "bytes \<Rightarrow> bytes \<Rightarrow> nat \<Rightarrow> bytes \<Rightarrow> (nat \<times> bytes) option" where
  "fenceLoop data marker beg work =
     (let fenceEnd = fst (isFenceLine (drop beg data) marker)
      in if fenceEnd \<noteq> 0 then Some (beg + fenceEnd, work)
         else (let end' = skipUntilChar data beg nl + 1
               in if end' \<ge> length data then None
                  else fenceLoop data marker end' (work @ slice data beg end')))"
  by pat_completeness auto
termination
proof (relation "measure (\<lambda>(data, marker, beg, work). length data - beg)")
  fix data :: bytes and marker :: bytes and beg :: nat and work :: bytes and x :: nat and xa :: nat
  assume "xa = skipUntilChar data beg nl + 1" "\<not> length data \<le> xa"
  moreover have "beg \<le> skipUntilChar data beg nl" by (rule skipUntilChar_ge)
  ultimately show "((data, marker, xa, work @ slice data beg xa), data, marker, beg, work)
      \<in> measure (\<lambda>(data, marker, beg, work). length data - beg)"
    by simp
qed simp

text \<open>
  A closing fence for the marker \<open>m\<close>: up to three spaces, the marker itself, spaces, and
  then the end of the line or of the input.
\<close>

definition closingFence :: "bytes \<Rightarrow> bytes \<Rightarrow> bool" where
  "closingFence l m =
     (\<exists>k t. k \<le> 3 \<and> k + length m + t \<le> length l
        \<and> take (k + length m + t) l = replicate k sp @ m @ replicate t sp
        \<and> (k + length m + t = length l \<or> l ! (k + length m + t) = nl))"

definition fenceMarker :: "bytes \<Rightarrow> bool" where
  "fenceMarker m = (\<exists>c n. m = replicate n c \<and> 3 \<le> n \<and> (c = CHR ''~'' \<or> c = backtick))"

text \<open>\<open>j\<close> is the start of a line of \<open>data\<close> at or after the line start \<open>beg\<close>.\<close>

definition lineStartFrom :: "bytes \<Rightarrow> nat \<Rightarrow> nat \<Rightarrow> bool" where
  "lineStartFrom data beg j = (beg \<le> j \<and> j < length data \<and> (j = beg \<or> data ! (j - 1) = nl))"

subsection \<open>Fence lines\<close>

declare fenceLoop.simps [simp del]

lemma slice_nth: "i + j < k \<Longrightarrow> k \<le> length data \<Longrightarrow> slice data i k ! j = data ! (i + j)"
  by (simp add: slice_def)

lemma slice_length: "i \<le> k \<Longrightarrow> k \<le> length data \<Longrightarrow> length (slice data i k) = k - i"
  by (simp add: slice_def)

lemma slice_replicate:
  assumes "i \<le> k" "k \<le> length data" "\<forall>j. i \<le> j \<and> j < k \<longrightarrow> data ! j = c"
  shows "slice data i k = replicate (k - i) c"
proof (rule nth_equalityI)
  show "length (slice data i k) = length (replicate (k - i) c)"
    using assms by (simp add: slice_length)
next
  fix j assume "j < length (slice data i k)"
  then have j: "j < k - i" using assms by (simp add: slice_length)
  then have "slice data i k ! j = data ! (i + j)" using assms by (intro slice_nth) auto
  with j assms(3) show "slice data i k ! j = replicate (k - i) c ! j" by simp
qed

lemma take_as_slices:
  assumes "a \<le> b" "b \<le> c" "c \<le> length data"
  shows "take c data = take a data @ slice data a b @ slice data b c"
proof -
  have "take c data = take (a + (c - a)) data" using assms by simp
  also have "\<dots> = take a data @ take (c - a) (drop a data)" by (rule take_add)
  also have "take (c - a) (drop a data) = take ((b - a) + (c - b)) (drop a data)"
    using assms by simp
  also have "\<dots> = take (b - a) (drop a data) @ take (c - b) (drop (b - a) (drop a data))"
    by (rule take_add)
  also have "drop (b - a) (drop a data) = drop b data" using assms by simp
  finally show ?thesis by (simp add: slice_def)
qed

text \<open>What a fence line that is accepted looks like.\<close>

lemma isFenceLine_marker:
  assumes "isFenceLine l old = (e, m, s)" "e \<noteq> 0"
  shows "fenceMarker m"
proof -
  define i0 where "i0 = skipCharN l 0 sp 3"
  define c where "c = l ! i0"
  define i where "i = skipChar l i0 c"
  have ge: "i0 \<le> i" unfolding i_def by (rule skipChar_ge)
  have i0l: "i0 \<le> length l" unfolding i0_def by (rule skipCharN_le_len) simp
  then have il: "i \<le> length l" unfolding i_def by (rule skipChar_le_len)
  have run: "\<forall>j. i0 \<le> j \<and> j < i \<longrightarrow> l ! j = c"
    unfolding i_def using skipChar_run by blast
  have bk: "i - (i - i0) = i0" using ge by simp
  have sl: "slice l (i - (i - i0)) i = replicate (i - i0) c"
    unfolding bk using ge il run by (intro slice_replicate) auto
  from assms have "i0 < length l" "c = CHR ''~'' \<or> c = backtick" "\<not> i - i0 < 3"
    "m = slice l (i - (i - i0)) i"
    by (auto simp: isFenceLine_def Let_def fenceLineEnd_def i0_def[symmetric] c_def[symmetric]
        i_def[symmetric] split: if_splits prod.splits)
  with sl show ?thesis unfolding fenceMarker_def by (intro exI[of _ c] exI[of _ "i - i0"]) auto
qed

lemma closing_isFenceLine:
  assumes "m \<noteq> []" "fst (isFenceLine l m) \<noteq> 0"
  shows "closingFence l m"
proof -
  define i0 where "i0 = skipCharN l 0 sp 3"
  define c where "c = l ! i0"
  define i where "i = skipChar l i0 c"
  define i' where "i' = skipChar l i sp"
  have ge: "i0 \<le> i" unfolding i_def by (rule skipChar_ge)
  have ge': "i \<le> i'" unfolding i'_def by (rule skipChar_ge)
  have i0l: "i0 \<le> length l" unfolding i0_def by (rule skipCharN_le_len) simp
  then have il: "i \<le> length l" unfolding i_def by (rule skipChar_le_len)
  then have i'l: "i' \<le> length l" unfolding i'_def by (rule skipChar_le_len)
  have i03: "i0 \<le> 3" unfolding i0_def using skipCharN_le_add[of l 0 sp 3] by simp
  have t0: "take i0 l = replicate i0 sp" unfolding i0_def by (rule skipCharN_sp_take)
  have s2: "slice l i i' = replicate (i' - i) sp"
    using ge' i'l skipChar_run[of i _ l sp] by (intro slice_replicate) (auto simp: i'_def)
  from assms have m: "m = slice l (i - (i - i0)) i"
    and fin: "fst (fenceLineEnd l i m []) \<noteq> 0"
    by (auto simp: isFenceLine_def Let_def i0_def[symmetric] c_def[symmetric]
        i_def[symmetric] split: if_splits prod.splits)
  from m ge have m': "m = slice l i0 i" by simp
  then have lm: "length m = i - i0" using ge il by (simp add: slice_length)
  from fin have stop: "i' = length l \<or> l ! i' = nl"
    by (auto simp: fenceLineEnd_def Let_def i'_def[symmetric] split: if_splits)
  have "take i' l = take i0 l @ slice l i0 i @ slice l i i'"
    using ge ge' i'l by (rule take_as_slices)
  then have tk: "take i' l = replicate i0 sp @ m @ replicate (i' - i) sp"
    using t0 m' s2 by simp
  have e: "i0 + length m + (i' - i) = i'" using lm ge ge' by simp
  show ?thesis unfolding closingFence_def
    by (intro exI[of _ i0] exI[of _ "i' - i"]) (use i03 e i'l tk stop in auto)
qed

lemma isFenceLine_closing:
  assumes "closingFence l m" "fenceMarker m"
  shows "fst (isFenceLine l m) \<noteq> 0"
proof -
  from assms(2) obtain c n where m: "m = replicate n c" and n: "3 \<le> n"
    and c: "c = CHR ''~'' \<or> c = backtick" unfolding fenceMarker_def by blast
  from assms(1) m obtain k t where k: "k \<le> 3" and tl: "k + n + t \<le> length l"
    and tk: "take (k + n + t) l = replicate k sp @ m @ replicate t sp"
    and stop: "k + n + t = length l \<or> l ! (k + n + t) = nl"
    unfolding closingFence_def by auto
  have nth: "l ! j = (replicate k sp @ m @ replicate t sp) ! j" if "j < k + n + t" for j
    using that tk by (metis nth_take)
  have n1: "l ! j = sp" if "j < k" for j
    using nth[of j] that by (simp add: nth_append)
  have n2: "l ! j = c" if "k \<le> j" "j < k + n" for j
  proof -
    from that have "j - k < n" by simp
    with nth[of j] that m show ?thesis by (simp add: nth_append)
  qed
  have n3: "l ! j = sp" if "k + n \<le> j" "j < k + n + t" for j
  proof -
    from that have "\<not> j < k" "\<not> j - k < n" "j - k - n < t" by auto
    with nth[of j] that m show ?thesis by (simp add: nth_append)
  qed
  have csp: "c \<noteq> sp" "c \<noteq> nl" using c by auto
  have i0: "skipCharN l 0 sp 3 = k"
  proof (rule skipCharN_eqI)
    show "k = 0 + 3 \<or> length l \<le> k \<or> l ! k \<noteq> sp" using n2[of k] n csp by simp
  qed (use k tl n1 in auto)
  have i: "skipChar l k c = k + n"
  proof (rule skipChar_eqI)
    show "length l \<le> k + n \<or> l ! (k + n) \<noteq> c"
    proof (cases "t = 0")
      case True
      with stop csp show ?thesis by auto
    next
      case False
      with n3[of "k + n"] csp show ?thesis by simp
    qed
  qed (use tl n2 in auto)
  have i': "skipChar l (k + n) sp = k + n + t"
  proof (rule skipChar_eqI)
    show "length l \<le> k + n + t \<or> l ! (k + n + t) \<noteq> sp" using stop by auto
  qed (use tl n3 in auto)
  have sl: "slice l k (k + n) = m"
    unfolding m using tl n2 slice_replicate[of k "k + n" l c] by simp
  have kl: "k < length l" using tl n by simp
  have fin: "fst (fenceLineEnd l (k + n) m []) \<noteq> 0"
    using stop tl n by (auto simp: fenceLineEnd_def Let_def i')
  have mne: "m \<noteq> []" using m n by auto
  show ?thesis
    using kl c n2[of k] n sl fin mne
    by (simp add: isFenceLine_def Let_def i0 i)
qed

lemma closingFence_iff:
  "fenceMarker m \<Longrightarrow> fst (isFenceLine l m) \<noteq> 0 \<longleftrightarrow> closingFence l m"
  using isFenceLine_closing[of l m] closing_isFenceLine[of m l]
  by (auto simp: fenceMarker_def)

text \<open>The loop finds a fence exactly when a line from \<open>beg\<close> on is one.\<close>

lemma fenceLoop_iff:
  "beg < length data \<Longrightarrow>
   fenceLoop data marker beg work \<noteq> None \<longleftrightarrow>
     (\<exists>j. lineStartFrom data beg j \<and> fst (isFenceLine (drop j data) marker) \<noteq> 0)"
proof (induction data marker beg work rule: fenceLoop.induct)
  case (1 data marker beg work)
  define e where "e = skipUntilChar data beg nl + 1"
  have ge: "beg < e" unfolding e_def using skipUntilChar_ge[of beg data nl] by simp
  have nonl: "data ! j \<noteq> nl" if "beg \<le> j" "j + 1 < e" for j
    using skipUntilChar_run[of beg j data nl] that unfolding e_def by simp
  show ?case
  proof (cases "fst (isFenceLine (drop beg data) marker) \<noteq> 0")
    case True
    then have "fenceLoop data marker beg work \<noteq> None"
      by (subst fenceLoop.simps) (simp add: Let_def)
    moreover have "lineStartFrom data beg beg" using "1.prems" by (simp add: lineStartFrom_def)
    ultimately show ?thesis using True by blast
  next
    case False
    have later: "e \<le> j" if "lineStartFrom data beg j" "j \<noteq> beg" for j
    proof (rule ccontr)
      assume "\<not> e \<le> j"
      with that have "beg \<le> j - 1" "(j - 1) + 1 < e" "data ! (j - 1) = nl"
        by (auto simp: lineStartFrom_def)
      with nonl[of "j - 1"] show False by simp
    qed
    show ?thesis
    proof (cases "e \<ge> length data")
      case True
      then have "fenceLoop data marker beg work = None"
        using False by (subst fenceLoop.simps) (simp add: Let_def e_def)
      moreover have "\<not> (\<exists>j. lineStartFrom data beg j \<and> fst (isFenceLine (drop j data) marker) \<noteq> 0)"
      proof
        assume "\<exists>j. lineStartFrom data beg j \<and> fst (isFenceLine (drop j data) marker) \<noteq> 0"
        then obtain j where j: "lineStartFrom data beg j" "fst (isFenceLine (drop j data) marker) \<noteq> 0"
          by blast
        with False have "j \<noteq> beg" by auto
        from later[OF j(1) this] True j(1) show False by (simp add: lineStartFrom_def)
      qed
      ultimately show ?thesis by simp
    next
      case el: False
      have rec: "fenceLoop data marker beg work = fenceLoop data marker e (work @ slice data beg e)"
        using False el by (subst fenceLoop.simps) (simp add: Let_def e_def)
      have stop: "data ! (e - 1) = nl"
        using skipUntilChar_stop[of data beg nl] el unfolding e_def by auto
      have IH: "fenceLoop data marker e (work @ slice data beg e) \<noteq> None \<longleftrightarrow>
          (\<exists>j. lineStartFrom data e j \<and> fst (isFenceLine (drop j data) marker) \<noteq> 0)"
        using "1.IH"[of "fst (isFenceLine (drop beg data) marker)" e] False el
        by (simp add: e_def)
      have "(\<exists>j. lineStartFrom data e j \<and> fst (isFenceLine (drop j data) marker) \<noteq> 0)
          \<longleftrightarrow> (\<exists>j. lineStartFrom data beg j \<and> fst (isFenceLine (drop j data) marker) \<noteq> 0)"
      proof
        assume "\<exists>j. lineStartFrom data e j \<and> fst (isFenceLine (drop j data) marker) \<noteq> 0"
        then obtain j where j: "lineStartFrom data e j" "fst (isFenceLine (drop j data) marker) \<noteq> 0"
          by blast
        from j(1) ge stop have "lineStartFrom data beg j"
          by (auto simp: lineStartFrom_def)
        with j(2) show "\<exists>j. lineStartFrom data beg j \<and> fst (isFenceLine (drop j data) marker) \<noteq> 0"
          by blast
      next
        assume "\<exists>j. lineStartFrom data beg j \<and> fst (isFenceLine (drop j data) marker) \<noteq> 0"
        then obtain j where j: "lineStartFrom data beg j" "fst (isFenceLine (drop j data) marker) \<noteq> 0"
          by blast
        with False have nb: "j \<noteq> beg" by auto
        from later[OF j(1) nb] j(1) nb have "lineStartFrom data e j"
          by (auto simp: lineStartFrom_def)
        with j(2) show "\<exists>j. lineStartFrom data e j \<and> fst (isFenceLine (drop j data) marker) \<noteq> 0"
          by blast
      qed
      with IH rec show ?thesis by simp
    qed
  qed
qed

lemma fenceLoop_Some_gt: "fenceLoop data marker beg work = Some (r, w) \<Longrightarrow> beg < r"
proof (induction data marker beg work rule: fenceLoop.induct)
  case (1 data marker beg work)
  define e where "e = skipUntilChar data beg nl + 1"
  have ge: "beg < e" unfolding e_def using skipUntilChar_ge[of beg data nl] by simp
  show ?case
  proof (cases "fst (isFenceLine (drop beg data) marker) \<noteq> 0")
    case True
    with "1.prems" show ?thesis by (subst (asm) fenceLoop.simps) (auto simp: Let_def)
  next
    case False
    with "1.prems" have el: "\<not> e \<ge> length data"
      and rec: "fenceLoop data marker e (work @ slice data beg e) = Some (r, w)"
      by (subst (asm) fenceLoop.simps, simp add: Let_def e_def split: if_splits)+
    from "1.IH"[of "fst (isFenceLine (drop beg data) marker)" e] False el rec have "e < r"
      by (simp add: e_def)
    with ge show ?thesis by simp
  qed
qed

section \<open>The document tree and the parser context\<close>

text \<open>
  The ast package and the Parser struct are declared outside block.go.
  Modelled from the spec: a node is a container (document root, list, list item, block
  quote, aside, figure with caption) or a leaf, with the attributes the spec's table of
  node variants lists; every node but the root has one parent. The nodes live in a heap,
  a list, and a pointer to a node is its index. A node enters the heap when it is linked
  to its parent (until then it is a value of the function that made it), so the parent
  of a node has a smaller index than the node; a walk along parent pointers that would
  not descend in the heap order is a fault.
\<close>

datatype nodeKind =
    Document | BlockQuote | Aside | List | ListItem | CaptionFigure | Caption
  | Paragraph | Heading | HorizontalRule | CodeBlock | HTMLBlock | MathBlock | HookNode

datatype listFlag =
    ListTypeOrdered | ListTypeDefinition | ListTypeTerm
  | ListItemContainsBlock | ListItemBeginningOfList | ListItemEndOfList

record node =
  kind :: nodeKind
  Parent :: "nat option"
  Children :: "nat list"
  Content :: bytes
  Literal :: bytes
  Attribute :: "bytes option"
  HeadingID :: bytes
  Level :: nat
  IsSpecial :: bool
  IsTitleblock :: bool
  ListFlags :: "listFlag set"
  Tight :: bool
  Start :: int
  Delimiter :: char
  BulletChar :: char
  IsFenced :: bool
  Info :: bytes

text \<open>A node as Go's composite literal without fields makes it: every field zero.\<close>

definition newNode :: "nodeKind \<Rightarrow> node" where
  "newNode k =
     \<lparr> kind = k, Parent = None, Children = [], Content = [], Literal = [], Attribute = None,
       HeadingID = [], Level = 0, IsSpecial = False, IsTitleblock = False, ListFlags = {},
       Tight = False, Start = 0, Delimiter = CHR 0x00, BulletChar = CHR 0x00,
       IsFenced = False, Info = [] \<rparr>"

text \<open>
  The parser context, with the fields block.go reads or writes. \<open>ParserHook\<close> is
  \<open>p.Opts.ParserHook\<close>: \<open>None\<close> is nil; the hook returns a node or nil, the data of the
  node's content or nil, and the number of bytes it consumed.
\<close>

record parser =
  extensions :: "extension set"
  nesting :: int
  maxNesting :: int
  nodes :: "node list"
  tip :: "nat option"
  attr :: "bytes option"
  includeStack :: "bytes list"
  allHeadingsWithAutoID :: "nat list"
  ParserHook :: "(bytes \<Rightarrow> node option \<times> bytes option \<times> nat) option"

definition setNode :: "parser \<Rightarrow> nat \<Rightarrow> (node \<Rightarrow> node) \<Rightarrow> parser" where
  "setNode p i f = p\<lparr>nodes := (nodes p)[i := f (nodes p ! i)]\<rparr>"

definition GetParent :: "parser \<Rightarrow> nat \<Rightarrow> nat option" where
  "GetParent p i = Parent (nodes p ! i)"

definition GetChildren :: "parser \<Rightarrow> nat \<Rightarrow> nat list" where
  "GetChildren p i = Children (nodes p ! i)"

definition GetLastChild :: "parser \<Rightarrow> nat \<Rightarrow> nat option" where
  "GetLastChild p i = (if Children (nodes p ! i) = [] then None else Some (last (Children (nodes p ! i))))"

text \<open>
  Modelled from the spec: a new block is opened under the correct parent, closing any
  container the new block is incompatible with. A list holds list items and nothing
  else; the other containers hold anything but list items; a leaf holds nothing.
\<close>

fun canNodeContain :: "nodeKind \<Rightarrow> nodeKind \<Rightarrow> bool" where
  "canNodeContain List v = (v = ListItem)"
| "canNodeContain Document v = (v \<noteq> ListItem)"
| "canNodeContain BlockQuote v = (v \<noteq> ListItem)"
| "canNodeContain Aside v = (v \<noteq> ListItem)"
| "canNodeContain ListItem v = (v \<noteq> ListItem)"
| "canNodeContain CaptionFigure v = (v \<noteq> ListItem)"
| "canNodeContain _ v = False"

text \<open>
  Modelled from the spec: finalizing a block makes its parent the tip. A nil block is a
  nil dereference.
\<close>

definition Finalize :: "parser \<Rightarrow> nat option \<Rightarrow> fault + parser" where
  "Finalize p block =
     (case block of
        None \<Rightarrow> Inl NilDereference
      | Some b \<Rightarrow> if b < length (nodes p) then Inr (p\<lparr>tip := GetParent p b\<rparr>) else Inl NilDereference)"

text \<open>
  Modelled from the spec: addChild finalizes the tip until the tip can contain the node,
  appends the node to the tip's children and makes the node the tip. \<open>findContainer\<close> is
  its loop, from the node \<open>i\<close> upwards.
\<close>

function findContainer :: "node list \<Rightarrow> nodeKind \<Rightarrow> nat \<Rightarrow> fault + nat" where
  "findContainer ns k i =
     (if i \<ge> length ns then Inl NilDereference
      else if canNodeContain (kind (ns ! i)) k then Inr i
      else (case Parent (ns ! i) of
              None \<Rightarrow> Inl NilDereference
            | Some j \<Rightarrow> if j < i then findContainer ns k j else Inl NilDereference))"
  by pat_completeness auto
termination
  by (relation "measure (\<lambda>(ns, k, i). i)") auto

declare findContainer.simps [simp del]

definition addChild :: "parser \<Rightarrow> node \<Rightarrow> fault + (parser \<times> nat)" where
  "addChild p nd =
     (case tip p of
        None \<Rightarrow> Inl NilDereference
      | Some t \<Rightarrow>
          bindE (findContainer (nodes p) (kind nd) t)
            (\<lambda>c. let n = length (nodes p);
                     p1 = p\<lparr>nodes := nodes p @ [nd\<lparr>Parent := Some c\<rparr>]\<rparr>;
                     p2 = setNode p1 c (\<lambda>x. x\<lparr>Children := Children x @ [n]\<rparr>)
                 in Inr (p2\<lparr>tip := Some n\<rparr>, n)))"

text \<open>
  Modelled from the spec: the closing of containers is addChild's; closeUnmatchedBlocks
  has no effect of its own.
\<close>

definition closeUnmatchedBlocks :: "parser \<Rightarrow> parser" where
  "closeUnmatchedBlocks p = p"

text \<open>AddBlock (block.go): the pending attributes go to the node, then addChild.\<close>

definition AddBlock :: "parser \<Rightarrow> node \<Rightarrow> fault + (parser \<times> nat)" where
  "AddBlock p0 nd =
     (let p = closeUnmatchedBlocks p0
      in case attr p of
           None \<Rightarrow> addChild p nd
         | Some a \<Rightarrow> addChild (p\<lparr>attr := None\<rparr>) (nd\<lparr>Attribute := Some a\<rparr>))"

subsection \<open>Collaborators outside block.go\<close>

text \<open>
  Functions block.go calls that are defined in other files of the parser package or in
  Go's library. They are parameters of the model. The recognizers among them return the
  parser they leave and the number of bytes they consumed; \<open>attribute\<close> returns the rest of
  the data; \<open>runesOf\<close> is the decoding a range clause does on a string and \<open>stringOf\<close> the
  conversion of runes to a string; \<open>unescapeString\<close> stands for the function of that name,
  which is made of calls to the regexp and html packages.
\<close>

record collab =
  unicode :: unicode_tables
  runesOf :: "bytes \<Rightarrow> rune list"
  stringOf :: "rune list \<Rightarrow> bytes"
  unescapeString :: "bytes \<Rightarrow> bytes"
  isBackslashEscaped :: "bytes \<Rightarrow> nat \<Rightarrow> bool"
  inlineHTMLComment :: "bytes \<Rightarrow> nat"
  attribute :: "parser \<Rightarrow> bytes \<Rightarrow> parser \<times> bytes"
  isInclude :: "parser \<Rightarrow> bytes \<Rightarrow> bytes \<times> bytes \<times> nat"
  isCodeInclude :: "parser \<Rightarrow> bytes \<Rightarrow> bytes \<times> bytes \<times> nat"
  readInclude :: "parser \<Rightarrow> bytes \<Rightarrow> bytes \<Rightarrow> bytes \<Rightarrow> bytes"
  readCodeInclude :: "parser \<Rightarrow> bytes \<Rightarrow> bytes \<Rightarrow> bytes \<Rightarrow> bytes"
  caption :: "parser \<Rightarrow> bytes \<Rightarrow> bytes \<Rightarrow> bytes \<times> bytes \<times> nat"
  Inline :: "parser \<Rightarrow> node \<Rightarrow> bytes \<Rightarrow> parser \<times> node"
  asidePrefix :: "parser \<Rightarrow> bytes \<Rightarrow> nat"
  aside :: "parser \<Rightarrow> bytes \<Rightarrow> parser \<times> nat"
  figureBlock :: "parser \<Rightarrow> bytes \<Rightarrow> bool \<Rightarrow> parser \<times> nat"
  table :: "parser \<Rightarrow> bytes \<Rightarrow> parser \<times> nat"
  tableHeader :: "parser \<Rightarrow> bytes \<Rightarrow> bool \<Rightarrow> nat"
  documentMatter :: "parser \<Rightarrow> bytes \<Rightarrow> parser \<times> nat"
  isReference :: "parser \<Rightarrow> bytes \<Rightarrow> nat \<Rightarrow> parser \<times> nat"

definition captionTable :: bytes where "captionTable = ''Table: ''"
definition captionFigure :: bytes where "captionFigure = ''Figure: ''"
definition captionQuote :: bytes where "captionQuote = ''Quote: ''"

section \<open>The block recognizers\<close>

text \<open>
  A recognizer of the parser is a method that changes the parser and returns the number of
  bytes it consumed; in the model it takes the parser and returns \<open>fault + (parser \<times> nat)\<close>.
  \<open>sliceFrom\<close> is \<open>data[n:]\<close> where the source does not guard \<open>n\<close>.
\<close>

definition sliceFrom :: "bytes \<Rightarrow> nat \<Rightarrow> fault + bytes" where
  "sliceFrom data n = (if n \<le> length data then Inr (drop n data) else Inl IndexOutOfRange)"

subsection \<open>Headings\<close>

definition isPrefixHeading :: "extension set \<Rightarrow> bytes \<Rightarrow> bool" where
  "isPrefixHeading ext data =
     (if length data > 0 \<and> data ! 0 \<noteq> CHR ''#'' then False
      else if SpaceHeadings \<in> ext
           then (let level = skipCharN data 0 (CHR ''#'') 6
                 in if level = length data \<or> data ! level \<noteq> sp then False else True)
           else True)"

text \<open>
  The search for a heading id \<open>{#id}\<close>, the same code in prefixHeading and
  prefixSpecialHeading: from \<open>i\<close> and \<open>end\<close> it gives the id, the new \<open>end\<close> and \<open>skip\<close>.
  The loop for \<open>j\<close> has the condition \<open>j < end-1\<close>, on natural numbers \<open>j + 1 < end\<close>; the
  loop for \<open>k\<close> is skipUntilChar on the first \<open>end\<close> bytes.
\<close>

function findIdStart :: "bytes \<Rightarrow> nat \<Rightarrow> nat \<Rightarrow> nat" where
  "findIdStart data j end' =
     (if j + 1 < end' \<and> (data ! j \<noteq> CHR ''{'' \<or> data ! (j + 1) \<noteq> CHR ''#'')
      then findIdStart data (j + 1) end' else j)"
  by pat_completeness auto
termination
  by (relation "measure (\<lambda>(data, j, end'). end' - j)") auto

declare findIdStart.simps [simp del]

definition headingId :: "extension set \<Rightarrow> bytes \<Rightarrow> nat \<Rightarrow> nat \<Rightarrow> bytes \<times> nat \<times> nat" where
  "headingId ext data i end' =
     (if HeadingIDs \<in> ext
      then (let j = findIdStart data i end';
                k = skipUntilChar (take end' data) (j + 1) (CHR ''}'')
            in if j < end' \<and> k < end'
               then (slice data (j + 2) k, backChar data j sp, k + 1)
               else ([], end', end'))
      else ([], end', end'))"

fun trimHashes :: "collab \<Rightarrow> bytes \<Rightarrow> nat \<Rightarrow> nat" where
  "trimHashes C data 0 = 0"
| "trimHashes C data (Suc e) =
     (if data ! e = CHR ''#''
      then (if isBackslashEscaped C data e then Suc e else trimHashes C data e)
      else Suc e)"

definition autoId :: "collab \<Rightarrow> bytes \<Rightarrow> bytes" where
  "autoId C s = stringOf C (sanitizeHeadingID (unicode C) (runesOf C s))"

text \<open>
  The end of both heading functions: the heading is added if it has content. The pointer
  appended to \<open>allHeadingsWithAutoID\<close> is the index the node gets when it is linked.
\<close>

definition addHeading :: "collab \<Rightarrow> parser \<Rightarrow> node \<Rightarrow> bytes \<Rightarrow> fault + parser" where
  "addHeading C p block content =
     (let auto = (HeadingID block = [] \<and> AutoHeadingIDs \<in> extensions p);
          block1 = (if auto then block\<lparr>HeadingID := autoId C content\<rparr> else block);
          p1 = (if auto then p\<lparr>allHeadingsWithAutoID := allHeadingsWithAutoID p @ [length (nodes p)]\<rparr>
                else p)
      in bindE (AddBlock p1 block1) (\<lambda>(p2, b). Inr p2))"

definition prefixHeading :: "collab \<Rightarrow> parser \<Rightarrow> bytes \<Rightarrow> fault + (parser \<times> nat)" where
  "prefixHeading C p data =
     (let level = skipCharN data 0 (CHR ''#'') 6;
          i = skipChar data level sp;
          end0 = skipUntilChar data i nl
      in case headingId (extensions p) data i end0 of
           (hid, end1, skip) \<Rightarrow>
             (let end2 = trimHashes C data end1;
                  end3 = backChar data end2 sp
              in if end3 > i
                 then bindE (addHeading C p
                               ((newNode Heading)\<lparr>HeadingID := hid, Level := level,
                                                  Content := slice data i end3\<rparr>)
                               (slice data i end3))
                        (\<lambda>p1. Inr (p1, skip))
                 else Inr (p, skip)))"

text \<open>The first test of isPrefixSpecialHeading is \<open>p.extensions|Mmark == 0\<close>, an or.\<close>

definition isPrefixSpecialHeading :: "extension set \<Rightarrow> bytes \<Rightarrow> bool" where
  "isPrefixSpecialHeading ext data =
     (if ext \<union> {Mmark} = {} then False
      else if length data < 4 then False
      else if data ! 0 \<noteq> CHR ''.'' then False
      else if data ! 1 \<noteq> CHR ''#'' then False
      else if data ! 2 = CHR ''#'' then False
      else if SpaceHeadings \<in> ext then (if data ! 2 \<noteq> sp then False else True)
      else True)"

definition prefixSpecialHeading :: "collab \<Rightarrow> parser \<Rightarrow> bytes \<Rightarrow> fault + (parser \<times> nat)" where
  "prefixSpecialHeading C p data =
     (let i = skipChar data 2 sp;
          end0 = skipUntilChar data i nl
      in case headingId (extensions p) data i end0 of
           (hid, end1, skip) \<Rightarrow>
             (let end2 = trimHashes C data end1;
                  end3 = backChar data end2 sp
              in if end3 > i
                 then bindE (addHeading C p
                               ((newNode Heading)\<lparr>HeadingID := hid, IsSpecial := True, Level := 1,
                                                  Literal := slice data i end3,
                                                  Content := slice data i end3\<rparr>)
                               (slice data i end3))
                        (\<lambda>p1. Inr (p1, skip))
                 else Inr (p, skip)))"

text \<open>isUnderlinedHeading reads \<open>data[0]\<close>; its caller has a non-empty \<open>data\<close>.\<close>

definition isUnderlinedHeading :: "bytes \<Rightarrow> nat" where
  "isUnderlinedHeading data =
     (if data ! 0 = CHR ''=''
      then (let i = skipChar data (skipChar data 1 (CHR ''='')) sp
            in if i < length data \<and> data ! i = nl then 1 else 0)
      else if data ! 0 = CHR ''-''
      then (let i = skipChar data (skipChar data 1 (CHR ''-'')) sp
            in if i < length data \<and> data ! i = nl then 2 else 0)
      else 0)"

subsection \<open>Title block\<close>

text \<open>
  \<open>bytes.Split(data, "\n")\<close>, \<open>bytes.Join(s, "\n")\<close>, \<open>bytes.TrimPrefix(data, "% ")\<close> and
  \<open>bytes.Replace(data, "\n% ", "\n", -1)\<close> of Go's library.
\<close>

fun splitNl :: "bytes \<Rightarrow> bytes \<Rightarrow> bytes list" where
  "splitNl [] cur = [cur]"
| "splitNl (c # cs) cur = (if c = nl then cur # splitNl cs [] else splitNl cs (cur @ [c]))"

fun joinNl :: "bytes list \<Rightarrow> bytes" where
  "joinNl [] = []"
| "joinNl [x] = x"
| "joinNl (x # y # ys) = x @ [nl] @ joinNl (y # ys)"

definition trimPercent :: "bytes \<Rightarrow> bytes" where
  "trimPercent data = (if take 2 data = ''% '' then drop 2 data else data)"

fun replaceNlPercent :: "bytes \<Rightarrow> bytes" where
  "replaceNlPercent [] = []"
| "replaceNlPercent (c # cs) =
     (case cs of
        a # b # rest \<Rightarrow>
          if c = nl \<and> a = CHR ''%'' \<and> b = sp then nl # replaceNlPercent rest
          else c # replaceNlPercent cs
      | _ \<Rightarrow> c # replaceNlPercent cs)"

text \<open>The index of the first piece that does not start with the percent sign, or 0.\<close>

fun firstNoPercent :: "bytes list \<Rightarrow> nat \<Rightarrow> nat" where
  "firstNoPercent [] idx = 0"
| "firstNoPercent (b # bs) idx =
     (if \<not> (b \<noteq> [] \<and> hd b = CHR ''%'') then idx else firstNoPercent bs (idx + 1))"

text \<open>titleBlock reads \<open>data[0]\<close>; its caller has \<open>data[0] = '%'\<close>.\<close>

definition titleBlock :: "parser \<Rightarrow> bytes \<Rightarrow> bool \<Rightarrow> fault + (parser \<times> nat)" where
  "titleBlock p data doRender =
     (if data ! 0 \<noteq> CHR ''%'' then Inr (p, 0)
      else (let splitData = splitNl data [];
                i = firstNoPercent splitData 0;
                data1 = joinNl (take i splitData);
                consumed = length data1;
                data2 = replaceNlPercent (trimPercent data1)
            in bindE (AddBlock p ((newNode Heading)\<lparr>Level := 1, IsTitleblock := True, Content := data2\<rparr>))
                 (\<lambda>(p1, b). Inr (p1, consumed))))"

subsection \<open>HTML blocks\<close>

definition blockTags :: "bytes set" where
  "blockTags = set [''blockquote'', ''del'', ''dd'', ''div'', ''dl'', ''dt'', ''fieldset'', ''form'',
     ''h1'', ''h2'', ''h3'', ''h4'', ''h5'', ''h6'', ''iframe'', ''ins'', ''li'', ''math'', ''noscript'',
     ''ol'', ''pre'', ''p'', ''script'', ''style'', ''table'', ''ul'', ''address'', ''article'', ''aside'',
     ''canvas'', ''details'', ''dialog'', ''figcaption'', ''figure'', ''footer'', ''header'', ''hgroup'',
     ''main'', ''nav'', ''output'', ''progress'', ''section'', ''svg'', ''video'']"

definition htmlFindTag :: "bytes \<Rightarrow> bytes \<times> bool" where
  "htmlFindTag data =
     (let i = skipAlnum data 0; key = take i data
      in if key \<in> blockTags then (key, True) else ([], False))"

definition htmlFindEnd :: "extension set \<Rightarrow> bytes \<Rightarrow> bytes \<Rightarrow> nat" where
  "htmlFindEnd ext tag data =
     (if tag = ''hr'' then 2
      else (let closetag = ''</'' @ tag @ ''>''
            in if take (length closetag) data \<noteq> closetag then 0
               else (let i0 = length closetag; skip = IsEmpty (drop i0 data)
                     in if skip = 0 then 0
                        else (let i = i0 + skip
                              in if i \<ge> length data then i
                                 else if LaxHTMLBlocks \<in> ext then i
                                 else (let skip2 = IsEmpty (drop i data)
                                       in if skip2 = 0 then 0 else i + skip2)))))"

definition finalizeHTMLBlock :: "parser \<Rightarrow> nat \<Rightarrow> parser" where
  "finalizeHTMLBlock p block = setNode p block (\<lambda>x. x\<lparr>Literal := Content x, Content := []\<rparr>)"

text \<open>The rendering that htmlComment, htmlHr and html share: trim the newlines, add the block.\<close>

definition renderHTML :: "parser \<Rightarrow> bytes \<Rightarrow> nat \<Rightarrow> fault + parser" where
  "renderHTML p data size' =
     (let end' = backChar data size' nl
      in bindE (AddBlock p ((newNode HTMLBlock)\<lparr>Content := take end' data\<rparr>))
           (\<lambda>(p1, b). Inr (finalizeHTMLBlock p1 b)))"

definition htmlComment :: "collab \<Rightarrow> parser \<Rightarrow> bytes \<Rightarrow> bool \<Rightarrow> fault + (parser \<times> nat)" where
  "htmlComment C p data doRender =
     (let i = inlineHTMLComment C data
      in bindE (sliceFrom data i)
           (\<lambda>rest. let j = IsEmpty rest
                   in if j > 0
                      then (if doRender
                            then bindE (renderHTML p data (i + j)) (\<lambda>p1. Inr (p1, i + j))
                            else Inr (p, i + j))
                      else Inr (p, 0)))"

function htmlHrEnd :: "bytes \<Rightarrow> nat \<Rightarrow> nat" where
  "htmlHrEnd data i =
     (if i < length data \<and> data ! i \<noteq> CHR ''>'' \<and> data ! i \<noteq> nl then htmlHrEnd data (i + 1) else i)"
  by pat_completeness auto
termination
  by (relation "measure (\<lambda>(data, i). length data - i)") auto

declare htmlHrEnd.simps [simp del]

definition htmlHr :: "parser \<Rightarrow> bytes \<Rightarrow> bool \<Rightarrow> fault + (parser \<times> nat)" where
  "htmlHr p data doRender =
     (if length data < 4 then Inr (p, 0)
      else if data ! 0 \<noteq> CHR ''<'' \<or> (data ! 1 \<noteq> CHR ''h'' \<and> data ! 1 \<noteq> CHR ''H'')
              \<or> (data ! 2 \<noteq> CHR ''r'' \<and> data ! 2 \<noteq> CHR ''R'') then Inr (p, 0)
      else if data ! 3 \<noteq> sp \<and> data ! 3 \<noteq> CHR ''/'' \<and> data ! 3 \<noteq> CHR ''>'' then Inr (p, 0)
      else (let i = htmlHrEnd data 3
            in if i < length data \<and> data ! i = CHR ''>''
               then (let j = IsEmpty (drop (i + 1) data)
                     in if j > 0
                        then (if doRender
                              then bindE (renderHTML p data (i + 1 + j)) (\<lambda>p1. Inr (p1, i + 1 + j))
                              else Inr (p, i + 1 + j))
                        else Inr (p, 0))
               else Inr (p, 0)))"

text \<open>
  The search of html for the closing tag, from \<open>i\<close>: \<open>htmlScanClose\<close> is its inner loop,
  \<open>None\<close> is \<open>found = false\<close>.
\<close>

function htmlScanClose :: "bytes \<Rightarrow> nat \<Rightarrow> nat" where
  "htmlScanClose data i =
     (if i < length data \<and> \<not> (data ! (i - 1) = CHR ''<'' \<and> data ! i = CHR ''/'')
      then htmlScanClose data (i + 1) else i)"
  by pat_completeness auto
termination
  by (relation "measure (\<lambda>(data, i). length data - i)") auto

declare htmlScanClose.simps [simp del]

lemma htmlScanClose_ge: "i \<le> htmlScanClose data i"
proof (induction data i rule: htmlScanClose.induct)
  case (1 data i)
  then show ?case by (subst htmlScanClose.simps) (auto simp: Suc_leD)
qed

function htmlSearch :: "extension set \<Rightarrow> bytes \<Rightarrow> bytes \<Rightarrow> nat \<Rightarrow> nat option" where
  "htmlSearch ext curtag data i =
     (if i < length data
      then (let i1 = htmlScanClose data (i + 1)
            in if i1 + 2 + length curtag \<ge> length data then None
               else (let j = htmlFindEnd ext curtag (drop (i1 - 1) data)
                     in if j > 0 then Some (i1 + (j - 1)) else htmlSearch ext curtag data i1))
      else None)"
  by pat_completeness auto
termination
proof (relation "measure (\<lambda>(ext, curtag, data, i). length data - i)")
  fix ext :: "extension set" and curtag data :: bytes and i x xa :: nat
  assume "i < length data" "x = htmlScanClose data (i + 1)" "\<not> length data \<le> x + 2 + length curtag"
  moreover have "i + 1 \<le> htmlScanClose data (i + 1)" by (rule htmlScanClose_ge)
  ultimately show "((ext, curtag, data, x), ext, curtag, data, i)
      \<in> measure (\<lambda>(ext, curtag, data, i). length data - i)"
    by simp
qed simp

declare htmlSearch.simps [simp del]

text \<open>html reads \<open>data[0]\<close>; its callers have \<open>data[0] = '<'\<close>.\<close>

definition html :: "collab \<Rightarrow> parser \<Rightarrow> bytes \<Rightarrow> bool \<Rightarrow> fault + (parser \<times> nat)" where
  "html C p data doRender =
     (if data ! 0 \<noteq> CHR ''<'' then Inr (p, 0)
      else (case htmlFindTag (drop 1 data) of
              (curtag, tagfound) \<Rightarrow>
                if \<not> tagfound
                then bindE (htmlComment C p data doRender)
                       (\<lambda>(p1, size1).
                          if size1 > 0 then Inr (p1, size1)
                          else bindE (htmlHr p1 data doRender)
                                 (\<lambda>(p2, size2). if size2 > 0 then Inr (p2, size2) else Inr (p2, 0)))
                else (case (if curtag \<noteq> ''ins'' \<and> curtag \<noteq> ''del''
                            then htmlSearch (extensions p) curtag data 1 else None) of
                        None \<Rightarrow> Inr (p, 0)
                      | Some i \<Rightarrow>
                          if doRender then bindE (renderHTML p data i) (\<lambda>p1. Inr (p1, i))
                          else Inr (p, i))))"

subsection \<open>Horizontal rule\<close>

text \<open>
  isHRule reads \<open>data[i]\<close> without a test of the length while it skips up to three spaces
  and when it looks at the rule character: a buffer that ends there is a fault.
\<close>

function hruleLoop :: "bytes \<Rightarrow> nat \<Rightarrow> char \<Rightarrow> nat \<Rightarrow> bool" where
  "hruleLoop data i c n =
     (if i < length data \<and> data ! i \<noteq> nl
      then (if data ! i = c then hruleLoop data (i + 1) c (n + 1)
            else if data ! i \<noteq> sp then False
            else hruleLoop data (i + 1) c n)
      else n \<ge> 3)"
  by pat_completeness auto
termination
  by (relation "measure (\<lambda>(data, i, c, n). length data - i)") auto

declare hruleLoop.simps [simp del]

definition isHRule :: "bytes \<Rightarrow> fault + bool" where
  "isHRule data =
     (let i = skipCharN data 0 sp 3
      in if i \<ge> length data then Inl IndexOutOfRange
         else if data ! i \<noteq> CHR ''*'' \<and> data ! i \<noteq> CHR ''-'' \<and> data ! i \<noteq> CHR ''_'' then Inr False
         else Inr (hruleLoop data i (data ! i) 0))"

text \<open>\<open>bytes.Trim(s, " \n")\<close> of Go's library.\<close>

definition trimSpNl :: "bytes \<Rightarrow> bytes" where
  "trimSpNl s =
     rev (dropWhile (\<lambda>c. c = sp \<or> c = nl) (rev (dropWhile (\<lambda>c. c = sp \<or> c = nl) s)))"

subsection \<open>Code blocks\<close>

text \<open>
  finalizeCodeBlock. \<open>bytes.IndexByte(c, '\n')\<close> is -1 when there is no newline, and the
  slice \<open>c[:-1]\<close> is a fault; \<open>bytes.Trim(firstLine, "\n")\<close> removes newlines at both ends.
\<close>

definition trimNl :: "bytes \<Rightarrow> bytes" where
  "trimNl s = rev (dropWhile (\<lambda>c. c = nl) (rev (dropWhile (\<lambda>c. c = nl) s)))"

definition finalizeCodeBlock :: "collab \<Rightarrow> node \<Rightarrow> fault + node" where
  "finalizeCodeBlock C code' =
     (let c = Content code'
      in if IsFenced code'
         then (let newlinePos = skipUntilChar c 0 nl
               in if newlinePos \<ge> length c then Inl IndexOutOfRange
                  else Inr (code'\<lparr>Info := unescapeString C (trimNl (take newlinePos c)),
                                   Literal := drop (newlinePos + 1) c, Content := []\<rparr>))
         else Inr (code'\<lparr>Literal := c, Content := []\<rparr>))"

definition finalizeCodeBlockAt :: "collab \<Rightarrow> parser \<Rightarrow> nat \<Rightarrow> fault + parser" where
  "finalizeCodeBlockAt C p b =
     bindE (finalizeCodeBlock C (nodes p ! b)) (\<lambda>n. Inr (p\<lparr>nodes := (nodes p)[b := n]\<rparr>))"

text \<open>The loop of \<open>code\<close> over the lines, from \<open>i\<close>; it returns the final \<open>i\<close> and \<open>work\<close>.\<close>

lemma lineEnd_gt: "i < length data \<Longrightarrow> i < skipCharN data (skipUntilChar data i nl) nl 1"
proof (cases "data ! i = nl")
  case True
  assume "i < length data"
  with True have "skipUntilChar data i nl = i" by (subst skipUntilChar.simps) simp
  moreover from True \<open>i < length data\<close> have "skipCharN data i nl 1 = skipCharN data (i + 1) nl 0"
    by (subst skipCharN.simps) simp
  moreover have "i + 1 \<le> skipCharN data (i + 1) nl 0" by (rule skipCharN_ge)
  ultimately show ?thesis by simp
next
  case False
  assume "i < length data"
  with False have "skipUntilChar data i nl = skipUntilChar data (i + 1) nl"
    by (subst skipUntilChar.simps) simp
  moreover have "i + 1 \<le> skipUntilChar data (i + 1) nl" by (rule skipUntilChar_ge)
  moreover have "skipUntilChar data i nl \<le> skipCharN data (skipUntilChar data i nl) nl 1"
    by (rule skipCharN_ge)
  ultimately show ?thesis by simp
qed

function codeLoop :: "bytes \<Rightarrow> nat \<Rightarrow> bytes \<Rightarrow> nat \<times> bytes" where
  "codeLoop data i work =
     (if i < length data
      then (let beg = i;
                i2 = skipCharN data (skipUntilChar data i nl) nl 1;
                blankline = (IsEmpty (slice data beg i2) > 0);
                pre = codePrefix (slice data beg i2)
            in if pre = 0 \<and> \<not> blankline then (beg, work)
               else codeLoop data i2
                      (work @ (if blankline then [nl]
                               else slice data (if pre > 0 then beg + pre else beg) i2)))
      else (i, work))"
  by pat_completeness auto
termination
proof (relation "measure (\<lambda>(data, i, work). length data - i)")
  fix data :: bytes and i :: nat and work :: bytes and x xa :: nat and xb :: bool and xc :: nat
  assume "i < length data" "xa = skipCharN data (skipUntilChar data i nl) nl 1"
  then show "((data, xa, work @ (if xb then [nl] else slice data (if 0 < xc then x + xc else x) xa)), data, i, work)
      \<in> measure (\<lambda>(data, i, work). length data - i)"
    using lineEnd_gt[of i data] skipCharN_le_len[of "skipUntilChar data i nl" data nl 1]
      skipUntilChar_le_len[of i data nl] by simp
qed simp

declare codeLoop.simps [simp del]

definition code :: "collab \<Rightarrow> parser \<Rightarrow> bytes \<Rightarrow> fault + (parser \<times> nat)" where
  "code C p data =
     (case codeLoop data 0 [] of
        (i, workbytes) \<Rightarrow>
          (let eol = backChar workbytes (length workbytes) nl;
               work = take eol workbytes @ [nl]
           in bindE (AddBlock p ((newNode CodeBlock)\<lparr>IsFenced := False, Content := work\<rparr>))
                (\<lambda>(p1, b). bindE (finalizeCodeBlockAt C p1 b) (\<lambda>p2. Inr (p2, i)))))"

text \<open>
  fencedCodeBlock. What the function does before it looks at \<open>doRender\<close> is
  \<open>fencedCodeBlockScan\<close>: the end index and the working buffer, or \<open>None\<close> for the
  \<open>return 0\<close>. With \<open>doRender\<close> false the function has no side effects, and the callers
  that pass false are modelled by the scan.
\<close>

definition fencedCodeBlockScan :: "bytes \<Rightarrow> (nat \<times> bytes) option" where
  "fencedCodeBlockScan data =
     (case isFenceLine data [] of
        (beg, marker, syn) \<Rightarrow>
          if beg = 0 \<or> beg \<ge> length data then None
          else fenceLoop data marker beg (syn @ [nl]))"

definition fencedCount :: "bytes \<Rightarrow> nat" where
  "fencedCount data = (case fencedCodeBlockScan data of None \<Rightarrow> 0 | Some (beg, work) \<Rightarrow> beg)"

definition fencedCodeBlock :: "collab \<Rightarrow> parser \<Rightarrow> bytes \<Rightarrow> bool \<Rightarrow> fault + (parser \<times> nat)" where
  "fencedCodeBlock C p data doRender =
     (case fencedCodeBlockScan data of
        None \<Rightarrow> Inr (p, 0)
      | Some (beg, work) \<Rightarrow>
          if \<not> doRender then Inr (p, beg)
          else (let codeBlock = (newNode CodeBlock)\<lparr>IsFenced := True, Content := work\<rparr>
                in if Mmark \<notin> extensions p
                   then bindE (AddBlock p codeBlock)
                          (\<lambda>(p1, b). bindE (finalizeCodeBlockAt C p1 b) (\<lambda>p2. Inr (p2, beg)))
                   else bindE (sliceFrom data beg)
                          (\<lambda>rest. case caption C p rest captionFigure of
                             (captionContent, hid, consumed) \<Rightarrow>
                               if consumed > 0
                               then (case Inline C p (newNode Caption) captionContent of
                                       (p0, caption') \<Rightarrow>
                                         bindE (AddBlock p0 ((newNode CaptionFigure)\<lparr>HeadingID := hid\<rparr>))
                                           (\<lambda>(p1, figure).
                                              bindE (addChild p1 (codeBlock\<lparr>Attribute := Attribute (nodes p1 ! figure)\<rparr>))
                                                (\<lambda>(p2, b).
                                                   bindE (finalizeCodeBlockAt C p2 b)
                                                     (\<lambda>p3. bindE (addChild p3 caption')
                                                        (\<lambda>(p4, c). bindE (Finalize p4 (Some figure))
                                                           (\<lambda>p5. Inr (p5, beg + consumed)))))))
                               else bindE (AddBlock p codeBlock)
                                      (\<lambda>(p1, b). bindE (finalizeCodeBlockAt C p1 b) (\<lambda>p2. Inr (p2, beg))))))"

subsection \<open>Block math\<close>

function mathEnd :: "bytes \<Rightarrow> nat \<Rightarrow> nat" where
  "mathEnd data end' =
     (if end' + 1 < length data \<and> (data ! end' \<noteq> CHR ''$'' \<or> data ! (end' + 1) \<noteq> CHR ''$'')
      then mathEnd data (end' + 1) else end')"
  by pat_completeness auto
termination
  by (relation "measure (\<lambda>(data, end'). length data - end')") auto

declare mathEnd.simps [simp del]

definition blockMath :: "parser \<Rightarrow> bytes \<Rightarrow> fault + (parser \<times> nat)" where
  "blockMath p data =
     (if length data \<le> 4 \<or> data ! 0 \<noteq> CHR ''$'' \<or> data ! 1 \<noteq> CHR ''$'' \<or> data ! 2 = CHR ''$''
      then Inr (p, 0)
      else (let end' = mathEnd data 2
            in if end' + 1 = length data then Inr (p, 0)
               else bindE (AddBlock p ((newNode MathBlock)\<lparr>Literal := slice data 2 end'\<rparr>))
                      (\<lambda>(p1, b). Inr (p1, end' + 2))))"

subsection \<open>Block quote\<close>

text \<open>
  \<open>quoteScan\<close> is the inner loop of \<open>quote\<close>: it steps to the end of the line, or past a
  fenced code block that starts in the line. \<open>quoteLoop\<close> is the outer loop; it returns
  the raw buffer and \<open>end\<close>.
\<close>

function quoteScan :: "extension set \<Rightarrow> bytes \<Rightarrow> nat \<Rightarrow> nat" where
  "quoteScan ext data end' =
     (if end' < length data \<and> data ! end' \<noteq> nl
      then (if FencedCode \<in> ext \<and> fencedCount (drop end' data) > 0
            then end' + (fencedCount (drop end' data) - 1)
            else quoteScan ext data (end' + 1))
      else end')"
  by pat_completeness auto
termination
  by (relation "measure (\<lambda>(ext, data, end'). length data - end')") auto

declare quoteScan.simps [simp del]

lemma fencedCount_ge2: "fencedCount data > 0 \<Longrightarrow> fencedCount data \<ge> 2"
proof -
  assume a: "fencedCount data > 0"
  then obtain r w where s: "fencedCodeBlockScan data = Some (r, w)" and r: "fencedCount data = r"
    by (auto simp: fencedCount_def split: option.splits)
  obtain beg marker syn where f: "isFenceLine data [] = (beg, marker, syn)"
    by (cases "isFenceLine data []") auto
  with s have "beg \<noteq> 0" and "fenceLoop data marker beg (syn @ [nl]) = Some (r, w)"
    by (auto simp: fencedCodeBlockScan_def split: if_splits)
  then have "0 < beg" "beg < r"
    using fenceLoop_Some_gt[of data marker beg "syn @ [nl]" r w] by simp_all
  with r show ?thesis by simp
qed

lemma quoteScan_ge: "e \<le> quoteScan ext data e"
proof (induction ext data e rule: quoteScan.induct)
  case (1 ext data e)
  show ?case
  proof (cases "e < length data \<and> data ! e \<noteq> nl")
    case False
    then show ?thesis by (subst quoteScan.simps) auto
  next
    case t: True
    show ?thesis
    proof (cases "FencedCode \<in> ext \<and> fencedCount (drop e data) > 0")
      case True
      with t show ?thesis by (subst quoteScan.simps) (clarsimp, linarith)
    next
      case False
      with t 1 have "e + 1 \<le> quoteScan ext data (e + 1)" by blast
      moreover from False t have "quoteScan ext data e = quoteScan ext data (e + 1)"
        by (subst quoteScan.simps) auto
      ultimately show ?thesis by simp
    qed
  qed
qed

lemma quoteScan_progress:
  assumes "beg < length data"
  shows "beg < skipCharN data (quoteScan ext data beg) nl 1"
proof (cases "data ! beg = nl")
  case True
  with assms have "quoteScan ext data beg = beg" by (subst quoteScan.simps) simp
  moreover from True assms have "skipCharN data beg nl 1 = skipCharN data (beg + 1) nl 0"
    by (subst skipCharN.simps) simp
  moreover have "beg + 1 \<le> skipCharN data (beg + 1) nl 0" by (rule skipCharN_ge)
  ultimately show ?thesis by simp
next
  case False
  have "beg + 1 \<le> quoteScan ext data beg"
  proof (cases "FencedCode \<in> ext \<and> fencedCount (drop beg data) > 0")
    case True
    then have "quoteScan ext data beg = beg + (fencedCount (drop beg data) - 1)"
      using False assms by (subst quoteScan.simps) simp
    with fencedCount_ge2[of "drop beg data"] True show ?thesis by simp
  next
    case f: False
    then have "quoteScan ext data beg = quoteScan ext data (beg + 1)"
      using False assms by (subst quoteScan.simps) auto
    with quoteScan_ge[of "beg + 1" ext data] show ?thesis by simp
  qed
  moreover have "quoteScan ext data beg \<le> skipCharN data (quoteScan ext data beg) nl 1"
    by (rule skipCharN_ge)
  ultimately show ?thesis by simp
qed

function quoteLoop :: "extension set \<Rightarrow> bytes \<Rightarrow> nat \<Rightarrow> nat \<Rightarrow> bytes \<Rightarrow> bytes \<times> nat" where
  "quoteLoop ext data beg end' raw =
     (if beg < length data
      then (let e = skipCharN data (quoteScan ext data beg) nl 1;
                pre = quotePrefix (drop beg data)
            in if pre > 0 then quoteLoop ext data e e (raw @ slice data (beg + pre) e)
               else if terminateBlockquote data beg e then (raw, e)
               else quoteLoop ext data e e (raw @ slice data beg e))
      else (raw, end'))"
  by pat_completeness auto
termination
proof (relation "measure (\<lambda>(ext, data, beg, end', raw). length data - beg)")
  show "wf (measure (\<lambda>(ext, data, beg, end', raw). length data - beg))" by simp
next
  fix ext :: "extension set" and data :: bytes and beg end' :: nat and raw :: bytes and x xa :: nat
  assume "beg < length data" "x = skipCharN data (quoteScan ext data beg) nl 1"
  then show "((ext, data, x, x, raw @ slice data (beg + xa) x), ext, data, beg, end', raw)
      \<in> measure (\<lambda>(ext, data, beg, end', raw). length data - beg)"
    using quoteScan_progress[of beg data ext] by simp
next
  fix ext :: "extension set" and data :: bytes and beg end' :: nat and raw :: bytes and x xa :: nat
  assume "beg < length data" "x = skipCharN data (quoteScan ext data beg) nl 1"
  then show "((ext, data, x, x, raw @ slice data beg x), ext, data, beg, end', raw)
      \<in> measure (\<lambda>(ext, data, beg, end', raw). length data - beg)"
    using quoteScan_progress[of beg data ext] by simp
qed

declare quoteLoop.simps [simp del]

text \<open>
  \<open>quote\<close>. The recursive call \<open>p.Block\<close> is the parameter \<open>blk\<close>. \<open>quoteRender\<close> is the
  code that stands twice in the source: add the block quote, parse the raw buffer as its
  content, finalize it.
\<close>

definition quoteRender ::
  "(parser \<Rightarrow> bytes \<Rightarrow> fault + parser) \<Rightarrow> parser \<Rightarrow> bytes \<Rightarrow> nat \<Rightarrow> fault + (parser \<times> nat)" where
  "quoteRender blk p raw e =
     bindE (AddBlock p (newNode BlockQuote))
       (\<lambda>(p1, block). bindE (blk p1 raw)
          (\<lambda>p2. bindE (Finalize p2 (Some block)) (\<lambda>p3. Inr (p3, e))))"

definition quote ::
  "(parser \<Rightarrow> bytes \<Rightarrow> fault + parser) \<Rightarrow> collab \<Rightarrow> parser \<Rightarrow> bytes \<Rightarrow> fault + (parser \<times> nat)" where
  "quote blk C p data =
     (case quoteLoop (extensions p) data 0 0 [] of
        (raw, e) \<Rightarrow>
          if Mmark \<notin> extensions p then quoteRender blk p raw e
          else bindE (sliceFrom data e)
                 (\<lambda>rest. case caption C p rest captionQuote of
                    (captionContent, hid, consumed) \<Rightarrow>
                      if consumed > 0
                      then (case Inline C p (newNode Caption) captionContent of
                              (p0, caption') \<Rightarrow>
                                bindE (AddBlock p0 ((newNode CaptionFigure)\<lparr>HeadingID := hid\<rparr>))
                                  (\<lambda>(p1, figure).
                                     bindE (addChild p1 ((newNode BlockQuote)\<lparr>Attribute := Attribute (nodes p1 ! figure)\<rparr>))
                                       (\<lambda>(p2, block).
                                          bindE (blk p2 raw)
                                            (\<lambda>p3. bindE (Finalize p3 (Some block))
                                               (\<lambda>p4. bindE (addChild p4 caption')
                                                  (\<lambda>(p5, c). bindE (Finalize p5 (Some figure))
                                                     (\<lambda>p6. Inr (p6, e + consumed))))))))
                      else quoteRender blk p raw e))"

subsection \<open>A parser and collaborators to run the recognizers on\<close>

text \<open>
  \<open>collab0\<close> are collaborators that never match: no attribute, include, caption, aside,
  figure, table, document matter or reference is recognized, nothing is escaped, and the
  inline parser leaves the node as it is. \<open>parser0\<close> is the parser main.go makes with
  \<open>parser.NewWithExtensions(Extensions)\<close> before the first byte is parsed: the extensions
  of main.go, an empty document as the tip, no hook.
  The nesting cap of this parser is 16 levels; no theorem depends on the number.
\<close>

definition collab0 :: collab where
  "collab0 =
     \<lparr> unicode = latin1_tables,
       runesOf = map of_char,
       stringOf = map char_of,
       unescapeString = (\<lambda>s. s),
       isBackslashEscaped = (\<lambda>data i. False),
       inlineHTMLComment = (\<lambda>data. 0),
       attribute = (\<lambda>p data. (p, data)),
       isInclude = (\<lambda>p data. ([], [], 0)),
       isCodeInclude = (\<lambda>p data. ([], [], 0)),
       readInclude = (\<lambda>p frm path address. []),
       readCodeInclude = (\<lambda>p frm path address. []),
       caption = (\<lambda>p data cap. ([], [], 0)),
       Inline = (\<lambda>p nd data. (p, nd)),
       asidePrefix = (\<lambda>p data. 0),
       aside = (\<lambda>p data. (p, 0)),
       figureBlock = (\<lambda>p data doRender. (p, 0)),
       table = (\<lambda>p data. (p, 0)),
       tableHeader = (\<lambda>p data doRender. 0),
       documentMatter = (\<lambda>p data. (p, 0)),
       isReference = (\<lambda>p data tabSize. (p, 0)) \<rparr>"

definition mainExtensions :: "extension set" where
  "mainExtensions =
     {NoIntraEmphasis, Tables, FencedCode, Autolink, Strikethrough, SpaceHeadings,
      OrderedListStart, BackslashLineBreak, DefinitionLists, EmptyLinesBreakList, Footnotes,
      SuperSubscript}"

definition parser0 :: parser where
  "parser0 =
     \<lparr> extensions = mainExtensions, nesting = 0, maxNesting = 16,
       nodes = [newNode Document], tip = Some 0, attr = None, includeStack = [],
       allHeadingsWithAutoID = [], ParserHook = None \<rparr>"

subsection \<open>Fenced code blocks\<close>

lemma fencedCodeBlockScan_pos:
  "fencedCodeBlockScan data = Some (r, w) \<Longrightarrow> 0 < r"
proof -
  assume s: "fencedCodeBlockScan data = Some (r, w)"
  obtain beg marker syn where f: "isFenceLine data [] = (beg, marker, syn)"
    by (cases "isFenceLine data []") auto
  with s have "fenceLoop data marker beg (syn @ [nl]) = Some (r, w)"
    by (auto simp: fencedCodeBlockScan_def split: if_splits)
  then have "beg < r"
    using fenceLoop_Some_gt[of data marker beg "syn @ [nl]" r w] by simp
  then show ?thesis by simp
qed

lemma fencedCodeBlockScan_iff:
  assumes "isFenceLine data [] = (beg, marker, syn)" and "beg \<noteq> 0"
  shows "fencedCodeBlockScan data \<noteq> None \<longleftrightarrow>
           beg < length data \<and> (\<exists>j. lineStartFrom data beg j \<and> closingFence (drop j data) marker)"
proof (cases "beg < length data")
  case False
  with assms show ?thesis by (simp add: fencedCodeBlockScan_def)
next
  case True
  have m: "fenceMarker marker" using isFenceLine_marker[OF assms] .
  from True assms have "fencedCodeBlockScan data = fenceLoop data marker beg (syn @ [nl])"
    by (simp add: fencedCodeBlockScan_def)
  with fenceLoop_iff[OF True, of marker "syn @ [nl]"] closingFence_iff[OF m] True
  show ?thesis by simp
qed

lemma fencedCodeBlock_noRender:
  "fencedCodeBlock C p data False = Inr (p, fencedCount data)"
  by (auto simp: fencedCodeBlock_def fencedCount_def split: option.splits)

lemma fencedCount_pos_iff: "0 < fencedCount data \<longleftrightarrow> fencedCodeBlockScan data \<noteq> None"
  using fencedCodeBlockScan_pos[of data]
  by (auto simp: fencedCount_def split: option.splits)

lemma bindE_Inr_iff: "bindE m f = Inr y \<longleftrightarrow> (\<exists>x. m = Inr x \<and> f x = Inr y)"
  by (cases m) (auto simp: bindE_def)

lemma bindE_Inl_iff: "bindE m f = Inl e \<longleftrightarrow> m = Inl e \<or> (\<exists>x. m = Inr x \<and> f x = Inl e)"
  by (cases m) (auto simp: bindE_def)

lemma fencedCodeBlock_render:
  assumes "fencedCodeBlock C p data True = Inr (p', r)"
  shows "0 < r \<longleftrightarrow> fencedCodeBlockScan data \<noteq> None"
proof (cases "fencedCodeBlockScan data")
  case None
  with assms show ?thesis by (simp add: fencedCodeBlock_def)
next
  case (Some a)
  obtain b w where a: "a = (b, w)" by (cases a) auto
  with Some have b: "0 < b" using fencedCodeBlockScan_pos[of data b w] by simp
  have "b \<le> r"
  proof (cases "Mmark \<in> extensions p")
    case False
    with assms Some a show ?thesis
      by (auto simp: fencedCodeBlock_def Let_def bindE_Inr_iff)
  next
    case True
    with assms Some a obtain rest where rest: "sliceFrom data b = Inr rest"
      by (auto simp: fencedCodeBlock_def Let_def bindE_Inr_iff)
    obtain cc hid consumed where cap: "caption C p rest captionFigure = (cc, hid, consumed)"
      by (cases "caption C p rest captionFigure") auto
    obtain p0 cap' where inl: "Inline C p (newNode Caption) cc = (p0, cap')"
      by (cases "Inline C p (newNode Caption) cc") auto
    show ?thesis
    proof (cases "consumed > 0")
      case False
      with assms Some a True rest cap show ?thesis
        by (auto simp: fencedCodeBlock_def Let_def bindE_Inr_iff)
    next
      case c: True
      with assms Some a True rest cap inl show ?thesis
        by (auto simp: fencedCodeBlock_def Let_def bindE_Inr_iff)
    qed
  qed
  with b Some show ?thesis by simp
qed

text \<open>
  C1 (amended). Let the first line of the buffer be a fence-opening line, \<open>beg\<close> its end
  and \<open>marker\<close> its run of fence characters (at least three \<open>`\<close> or three \<open>~\<close>). Then
  fencedCodeBlock recognizes a fenced code block (returns more than 0) if and only if the
  opening line is not the whole buffer and some later line is a closing fence: at most
  three spaces, then a run of the same fence character of exactly the length of the
  opening run, then spaces only. Otherwise it consumes 0 bytes. Without rendering the
  parser is left as it was; with rendering the same holds whenever the call returns.
\<close>

theorem C1_fencedCodeBlock_closing_fence:
  assumes "isFenceLine data [] = (beg, marker, syn)" and "beg \<noteq> 0"
  shows "fenceMarker marker
    \<and> (\<exists>r. fencedCodeBlock C p data False = Inr (p, r)
          \<and> (0 < r \<longleftrightarrow>
               beg < length data \<and> (\<exists>j. lineStartFrom data beg j \<and> closingFence (drop j data) marker)))
    \<and> (\<forall>p' r. fencedCodeBlock C p data True = Inr (p', r) \<longrightarrow>
          (0 < r \<longleftrightarrow>
             beg < length data \<and> (\<exists>j. lineStartFrom data beg j \<and> closingFence (drop j data) marker)))"
proof -
  have m: "fenceMarker marker" using isFenceLine_marker[OF assms] .
  note s = fencedCodeBlockScan_iff[OF assms]
  have a: "fencedCodeBlock C p data False = Inr (p, fencedCount data)"
    by (rule fencedCodeBlock_noRender)
  have b: "0 < fencedCount data \<longleftrightarrow>
             beg < length data \<and> (\<exists>j. lineStartFrom data beg j \<and> closingFence (drop j data) marker)"
    using s fencedCount_pos_iff[of data] by simp
  have c: "\<forall>p' r. fencedCodeBlock C p data True = Inr (p', r) \<longrightarrow>
          (0 < r \<longleftrightarrow>
             beg < length data \<and> (\<exists>j. lineStartFrom data beg j \<and> closingFence (drop j data) marker))"
    using fencedCodeBlock_render[of C p data] s by blast
  show ?thesis unfolding a using m b c by simp
qed


theorem C1_witness:
  "isFenceLine (''```'' @ [nl] @ ''x'' @ [nl] @ ''```'' @ [nl]) [] = (4, ''```'', [])
   \<and> fenceMarker ''```''
   \<and> fencedCodeBlock collab0 parser0 (''```'' @ [nl] @ ''x'' @ [nl] @ ''```'' @ [nl]) False = Inr (parser0, 10)
   \<and> (\<exists>j. lineStartFrom (''```'' @ [nl] @ ''x'' @ [nl] @ ''```'' @ [nl]) 4 j
            \<and> closingFence (drop j (''```'' @ [nl] @ ''x'' @ [nl] @ ''```'' @ [nl])) ''```'')"
proof -
  let ?d = "''```'' @ [nl] @ ''x'' @ [nl] @ ''```'' @ [nl]"
  have a: "isFenceLine ?d [] = (4, ''```'', [])" by code_simp
  have c: "fencedCount ?d = 10" by code_simp
  from C1_fencedCodeBlock_closing_fence [OF a, of collab0 parser0] a c
  show ?thesis by (simp add: fencedCodeBlock_noRender)
qed

text \<open>
  C1, the claim as it stands: an opener of three backticks closed by five backticks.
  The line of five backticks is a fence line of its own, but not the closing fence of the
  three backticks: isFenceLine compares the whole run with the opening marker, so
  fencedCodeBlock reaches the end of the buffer and returns 0.
\<close>

theorem C1_counterexample:
  "isFenceLine (''```'' @ [nl] @ ''x'' @ [nl] @ ''`````'' @ [nl]) [] = (4, ''```'', [])
   \<and> fst (isFenceLine (''`````'' @ [nl]) []) = 6
   \<and> fst (isFenceLine (''`````'' @ [nl]) ''```'') = 0
   \<and> fencedCodeBlock collab0 parser0 (''```'' @ [nl] @ ''x'' @ [nl] @ ''`````'' @ [nl]) False
       = Inr (parser0, 0)
   \<and> fencedCodeBlock collab0 parser0 (''```'' @ [nl] @ ''x'' @ [nl] @ ''`````'' @ [nl]) True
       = Inr (parser0, 0)"
proof -
  let ?d = "''```'' @ [nl] @ ''x'' @ [nl] @ ''`````'' @ [nl]"
  have a: "isFenceLine ?d [] = (4, ''```'', [])" by code_simp
  have b: "fst (isFenceLine (''`````'' @ [nl]) []) = 6" by code_simp
  have c: "fst (isFenceLine (''`````'' @ [nl]) ''```'') = 0" by code_simp
  have d: "fencedCodeBlockScan ?d = None" by code_simp
  from a b c d show ?thesis by (simp add: fencedCodeBlock_def)
qed

subsection \<open>Where the gathering of a block quote ends\<close>


text \<open>
  The rule of termination in the words of the specification, as a relation between the
  beginning \<open>beg\<close> of a line and the index \<open>e\<close> at which the gathering from \<open>beg\<close> ends; \<open>nxt beg\<close>
  is where the next line begins. The gathering ends behind a blank line followed by a
  line that is neither blank nor quote-prefixed, or at the end of the input; otherwise it
  goes on with the next line.
\<close>

inductive quoteEnds :: "(nat \<Rightarrow> nat) \<Rightarrow> bytes \<Rightarrow> nat \<Rightarrow> nat \<Rightarrow> bool" for nxt :: "nat \<Rightarrow> nat" and data :: bytes where
  input_end: "beg \<ge> length data \<Longrightarrow> quoteEnds nxt data beg beg"
| blank_end:
    "beg < length data \<Longrightarrow> blankLine (drop beg data) \<Longrightarrow> nxt beg < length data \<Longrightarrow>
     \<not> blankLine (drop (nxt beg) data) \<Longrightarrow> \<forall>k. \<not> quoteLine (drop (nxt beg) data) k \<Longrightarrow>
     quoteEnds nxt data beg (nxt beg)"
| go_on:
    "beg < length data \<Longrightarrow>
     \<not> (blankLine (drop beg data) \<and> nxt beg < length data \<and> \<not> blankLine (drop (nxt beg) data)
        \<and> (\<forall>k. \<not> quoteLine (drop (nxt beg) data) k)) \<Longrightarrow>
     quoteEnds nxt data (nxt beg) e \<Longrightarrow> quoteEnds nxt data beg e"




















section \<open>Lists\<close>

subsection \<open>List items\<close>

text \<open>
  The indentation of the first line of an item. The source reads \<open>data[0]\<close> and then
  \<open>data[itemIndent]\<close> while \<open>itemIndent < 3\<close> without a test of the length: a buffer that
  ends within its first three spaces is a fault.
\<close>

definition itemIndentOf :: "bytes \<Rightarrow> fault + nat" where
  "itemIndentOf data =
     (if length data = 0 then Inl IndexOutOfRange
      else if data ! 0 = tab then Inr 4
      else (let k = skipCharN data 0 sp 3
            in if k < 3 \<and> k \<ge> length data then Inl IndexOutOfRange else Inr k))"

text \<open>
  The prefix of the item: the three prefix recognizers in the order of the source. The
  result is the index after the prefix, the bullet character, the delimiter and the
  flags; \<open>None\<close> is the source's \<open>return 0\<close> for a line without prefix outside a definition
  list.
\<close>

definition itemPrefix :: "bytes \<Rightarrow> listFlag set \<Rightarrow> (nat \<times> char \<times> char \<times> listFlag set) option" where
  "itemPrefix data flags =
     (let iu = uliPrefix data;
          io = (if iu = 0 then oliPrefix data else iu);
          bulletChar = (if iu = 0 then CHR ''*'' else data ! (iu - 2));
          delimiter = (if iu = 0 \<and> io > 0 then data ! (io - 2) else CHR ''.'');
          idl = (if io = 0 then dliPrefix data else io);
          flags1 = (if io = 0 \<and> idl > 0 then flags - {ListTypeTerm} else flags)
      in if idl = 0
         then (if ListTypeDefinition \<in> flags
               then Some (idl, bulletChar, delimiter, flags1 \<union> {ListTypeTerm})
               else None)
         else Some (idl, bulletChar, delimiter, flags1))"

text \<open>
  The end of the first line, \<open>for i > 0 && i < len(data) && data[i-1] != '\n'\<close>, and the
  end of a following line, the same loop without \<open>i > 0\<close>, entered after \<open>i++\<close>.
\<close>

function firstLineEnd :: "bytes \<Rightarrow> nat \<Rightarrow> nat" where
  "firstLineEnd data i =
     (if i > 0 \<and> i < length data \<and> data ! (i - 1) \<noteq> nl then firstLineEnd data (i + 1) else i)"
  by pat_completeness auto
termination
  by (relation "measure (\<lambda>(data, i). length data - i)") auto

declare firstLineEnd.simps [simp del]

function nextLineEnd :: "bytes \<Rightarrow> nat \<Rightarrow> nat" where
  "nextLineEnd data i =
     (if i < length data \<and> data ! (i - 1) \<noteq> nl then nextLineEnd data (i + 1) else i)"
  by pat_completeness auto
termination
  by (relation "measure (\<lambda>(data, i). length data - i)") auto

declare nextLineEnd.simps [simp del]

text \<open>
  The state of the loop \<open>gatherlines\<close>: the start of the current line (at the head of the
  loop \<open>i\<close> equals \<open>line\<close>), the working buffer, \<open>containsBlankLine\<close>, \<open>sublist\<close> and the flags
  the caller gets back. \<open>sublist\<close> is a Go int: it is \<open>-1\<close> after
  \<open>backUntilChar(raw.Bytes(), raw.Len()-1, '\n')\<close> on an empty buffer.
\<close>

record gather =
  gLine :: nat
  gRaw :: bytes
  gBlank :: bool
  gSublist :: int
  gFlags :: "listFlag set"

definition backUntilCharI :: "bytes \<Rightarrow> int \<Rightarrow> char \<Rightarrow> int" where
  "backUntilCharI data i c = (if i \<le> 0 then i else int (backUntilChar data (nat i) c))"

text \<open>The indentation of a following line: \<open>(indent, indentIndex)\<close>.\<close>

definition lineIndent :: "bytes \<Rightarrow> nat \<Rightarrow> nat \<Rightarrow> nat \<times> nat" where
  "lineIndent data line i =
     (if data ! line = tab then (4, 1)
      else (let k = skipCharN (take i data) line sp 4 - line in (k, k)))"

definition listTypeChanged :: "bytes \<Rightarrow> listFlag set \<Rightarrow> bool" where
  "listTypeChanged data flags =
     (if dliPrefix data > 0 \<and> ListTypeDefinition \<notin> flags then True
      else if oliPrefix data > 0 \<and> ListTypeOrdered \<notin> flags then True
      else if uliPrefix data > 0 \<and> (ListTypeOrdered \<in> flags \<or> ListTypeDefinition \<in> flags) then True
      else False)"

text \<open>
  The end of an iteration that does not leave the loop: a blank line seen before is put
  back into the buffer, the chunk is appended, the next line begins at \<open>i\<close>. The boolean of
  the result says that the loop goes on.
\<close>

definition gatherAppend :: "gather \<Rightarrow> bytes \<Rightarrow> nat \<Rightarrow> fault + (bool \<times> gather)" where
  "gatherAppend g chunk i =
     Inr (True, g\<lparr>gRaw := (if gBlank g then gRaw g @ [nl] else gRaw g) @ chunk,
                   gBlank := False, gLine := i\<rparr>)"

definition gatherBreak :: "gather \<Rightarrow> listFlag set \<Rightarrow> fault + (bool \<times> gather)" where
  "gatherBreak g fl = Inr (False, g\<lparr>gFlags := fl\<rparr>)"

text \<open>
  The first case of the switch, a nested list item. For \<open>indentIndex \<ge> 4\<close> the chunk has a
  list prefix with at most three leading spaces, so the start of the new chunk,
  \<open>line+indentIndex-(leadingWhiteSpaces+1)\<close>, is not negative.
\<close>

definition gatherNested ::
  "bytes \<Rightarrow> nat \<Rightarrow> gather \<Rightarrow> bytes \<Rightarrow> nat \<Rightarrow> nat \<Rightarrow> nat \<Rightarrow> fault + (bool \<times> gather)" where
  "gatherNested data itemIndent g chunk indent indentIndex i =
     (let chunk1 = (if indentIndex \<ge> 4 \<and> dliPrefix chunk \<le> 0
                    then slice data (gLine g + indentIndex - (skipChar chunk 0 sp + 1)) i
                    else chunk)
      in if indent \<le> itemIndent
         then gatherBreak g
                (if listTypeChanged chunk1 (gFlags g) then gFlags g \<union> {ListItemEndOfList}
                 else if gBlank g then gFlags g \<union> {ListItemContainsBlock}
                 else gFlags g)
         else (let fl = (if gBlank g then gFlags g \<union> {ListItemContainsBlock} else gFlags g);
                   sl = (if gSublist g = 0
                         then (if dliPrefix chunk1 > 0
                               then backUntilCharI (gRaw g) (int (length (gRaw g)) - 1) nl
                               else int (length (gRaw g)))
                         else gSublist g)
               in gatherAppend (g\<lparr>gFlags := fl, gSublist := sl\<rparr>) chunk1 i))"

text \<open>The second case, a nested prefix heading.\<close>

definition gatherHeading :: "gather \<Rightarrow> bytes \<Rightarrow> nat \<Rightarrow> nat \<Rightarrow> fault + (bool \<times> gather)" where
  "gatherHeading g chunk indent i =
     (if gBlank g \<and> indent < 4 then gatherBreak g (gFlags g \<union> {ListItemEndOfList})
      else gatherAppend (g\<lparr>gFlags := gFlags g \<union> {ListItemContainsBlock}\<rparr>) chunk i)"

text \<open>
  The third case, a line after a blank line that is indented less than four spaces. The
  source compares with \<open>len(data)-1\<close> on Go's int; on natural numbers \<open>i < len(data)-1\<close> is
  \<open>i + 1 < length data\<close>.
\<close>

function skipNlBelow :: "bytes \<Rightarrow> nat \<Rightarrow> nat" where
  "skipNlBelow data n =
     (if n + 1 < length data \<and> data ! n = nl then skipNlBelow data (n + 1) else n)"
  by pat_completeness auto
termination
  by (relation "measure (\<lambda>(data, n). length data - n)") auto

declare skipNlBelow.simps [simp del]

definition gatherAfterBlank :: "bytes \<Rightarrow> gather \<Rightarrow> nat \<Rightarrow> fault + (bool \<times> gather)" where
  "gatherAfterBlank data g i =
     (if ListTypeDefinition \<in> gFlags g \<and> i + 1 < length data
      then (let n = skipNlBelow data (skipUntilChar data i nl)
            in if i + 1 < length data \<and> data ! i \<noteq> CHR '':'' \<and> n + 1 < length data
                  \<and> data ! n \<noteq> CHR '':''
               then gatherBreak g (gFlags g \<union> {ListItemEndOfList})
               else gatherBreak g (gFlags g))
      else gatherBreak g (gFlags g \<union> {ListItemEndOfList}))"

text \<open>
  One iteration of \<open>gatherlines\<close>, for \<open>line < len(data)\<close>. isHRule is called only when the
  chunk has the prefix of an unordered item.
\<close>

definition gatherStep ::
  "extension set \<Rightarrow> bytes \<Rightarrow> bool \<Rightarrow> nat \<Rightarrow> gather \<Rightarrow> fault + (bool \<times> gather)" where
  "gatherStep ext data isDefinitionList itemIndent g =
     (let i = nextLineEnd data (gLine g + 1)
      in if IsEmpty (slice data (gLine g) i) > 0
         then Inr (True, g\<lparr>gBlank := True, gLine := i\<rparr>)
         else (case lineIndent data (gLine g) i of
                 (indent, indentIndex) \<Rightarrow>
                   (let chunk = slice data (gLine g + indentIndex) i
                    in if \<not> isDefinitionList \<and> FencedCode \<in> ext
                          \<and> fst (isFenceLine chunk []) > 0 \<and> indent = 0
                       then gatherBreak g (gFlags g \<union> {ListItemEndOfList})
                       else bindE (if uliPrefix chunk > 0 then isHRule chunk else Inr False)
                              (\<lambda>hr.
                                 if (uliPrefix chunk > 0 \<and> \<not> hr) \<or> oliPrefix chunk > 0
                                    \<or> dliPrefix chunk > 0
                                 then gatherNested data itemIndent g chunk indent indentIndex i
                                 else if isPrefixHeading ext chunk \<or> isPrefixSpecialHeading ext chunk
                                 then gatherHeading g chunk indent i
                                 else if gBlank g \<and> indent < 4 then gatherAfterBlank data g i
                                 else if gBlank g
                                 then gatherAppend
                                        (g\<lparr>gRaw := gRaw g @ [nl],
                                           gFlags := gFlags g \<union> {ListItemContainsBlock}\<rparr>)
                                        chunk i
                                 else gatherAppend g chunk i))))"

lemma nextLineEnd_ge: "i \<le> nextLineEnd data i"
proof (induction data i rule: nextLineEnd.induct)
  case (1 data i)
  show ?case
  proof (cases "i < length data \<and> data ! (i - 1) \<noteq> nl")
    case True
    with 1 have "i + 1 \<le> nextLineEnd data (i + 1)" by blast
    moreover from True have "nextLineEnd data i = nextLineEnd data (i + 1)"
      by (subst nextLineEnd.simps) simp
    ultimately show ?thesis by simp
  next
    case False
    then have "nextLineEnd data i = i" by (subst nextLineEnd.simps) auto
    then show ?thesis by simp
  qed
qed

lemma gatherStep_continue:
  assumes "gatherStep ext data isDef itemIndent g = Inr (True, g')"
  shows "gLine g < gLine g'"
proof -
  have n: "gLine g < nextLineEnd data (gLine g + 1)"
    using nextLineEnd_ge[of "gLine g + 1" data] by simp
  from assms have "gLine g' = nextLineEnd data (gLine g + 1)"
    by (auto simp: gatherStep_def Let_def gatherBreak_def gatherAppend_def gatherNested_def
        gatherHeading_def gatherAfterBlank_def bindE_def
        split: if_splits prod.splits sum.splits)
  with n show ?thesis by simp
qed

function gatherLoop ::
  "extension set \<Rightarrow> bytes \<Rightarrow> bool \<Rightarrow> nat \<Rightarrow> gather \<Rightarrow> fault + gather" where
  "gatherLoop ext data isDefinitionList itemIndent g =
     (if gLine g < length data
      then (case gatherStep ext data isDefinitionList itemIndent g of
              Inl e \<Rightarrow> Inl e
            | Inr (True, g') \<Rightarrow> gatherLoop ext data isDefinitionList itemIndent g'
            | Inr (False, g') \<Rightarrow> Inr g')
      else Inr g)"
  by pat_completeness auto
termination
  by (relation "measure (\<lambda>(ext, data, isDef, itemIndent, g). length data - gLine g)")
     (auto dest: gatherStep_continue simp: diff_less_mono2)

declare gatherLoop.simps [simp del]

text \<open>
  The contents of the item are rendered after the item is added: as blocks or as one
  paragraph, and the part of the buffer from \<open>sublist\<close> as blocks. The recursive call
  \<open>p.Block\<close> is the parameter \<open>blk\<close>.
\<close>

definition renderItem ::
  "(parser \<Rightarrow> bytes \<Rightarrow> fault + parser) \<Rightarrow> parser \<Rightarrow> bytes \<Rightarrow> int \<Rightarrow> listFlag set \<Rightarrow> fault + parser" where
  "renderItem blk p rawBytes sl flags =
     (if ListItemContainsBlock \<in> flags \<and> ListTypeTerm \<notin> flags
      then (if sl > 0
            then bindE (blk p (take (nat sl) rawBytes)) (\<lambda>p1. blk p1 (drop (nat sl) rawBytes))
            else blk p rawBytes)
      else bindE (addChild p ((newNode Paragraph)
                               \<lparr>Content := (if sl > 0 then take (nat sl) rawBytes else rawBytes)\<rparr>))
             (\<lambda>(p1, b). if sl > 0 then blk p1 (drop (nat sl) rawBytes) else Inr p1))"

text \<open>listItem returns the parser, the flags it leaves in \<open>*flags\<close> and the bytes consumed.\<close>

definition listItem ::
  "(parser \<Rightarrow> bytes \<Rightarrow> fault + parser) \<Rightarrow> parser \<Rightarrow> bytes \<Rightarrow> listFlag set
     \<Rightarrow> fault + (parser \<times> listFlag set \<times> nat)" where
  "listItem blk p data flags =
     bindE (itemIndentOf data)
       (\<lambda>itemIndent.
          case itemPrefix data flags of
            None \<Rightarrow> Inr (p, flags, 0)
          | Some (i0, bulletChar, delimiter, flags1) \<Rightarrow>
              (let i1 = skipChar data i0 sp;
                   i2 = firstLineEnd data i1;
                   g0 = \<lparr>gLine = i2, gRaw = slice data i1 i2, gBlank = False, gSublist = 0,
                         gFlags = flags1\<rparr>
               in bindE (gatherLoop (extensions p) data (ListTypeDefinition \<in> flags) itemIndent g0)
                    (\<lambda>g. bindE (AddBlock p ((newNode ListItem)
                                              \<lparr>ListFlags := gFlags g, Tight := False,
                                                 BulletChar := bulletChar, Delimiter := delimiter\<rparr>))
                            (\<lambda>(p1, b). bindE (renderItem blk p1 (gRaw g) (gSublist g) (gFlags g))
                                          (\<lambda>p2. Inr (p2, gFlags g, gLine g))))))"

subsection \<open>Finalization of a list\<close>

text \<open>
  endsWithBlankLine walks down the last children of lists and list items. Every path
  through it returns false (``TODO: figure this out. Always false now.''). The walk goes
  to a child, which has a greater index than its parent; a child pointer that does not
  ascend in the heap ends the walk.
\<close>

function endsWithBlankLine :: "node list \<Rightarrow> nat option \<Rightarrow> bool" where
  "endsWithBlankLine ns block =
     (case block of
        None \<Rightarrow> False
      | Some b \<Rightarrow>
          if b < length ns \<and> (kind (ns ! b) = List \<or> kind (ns ! b) = ListItem)
          then (if Children (ns ! b) = [] then endsWithBlankLine ns None
                else if b < last (Children (ns ! b))
                then endsWithBlankLine ns (Some (last (Children (ns ! b))))
                else False)
          else False)"
  by pat_completeness auto
termination
  by (relation "measure (\<lambda>(ns, block). case block of None \<Rightarrow> 0 | Some b \<Rightarrow> Suc (length ns) - b)")
     auto

declare endsWithBlankLine.simps [simp del]

text \<open>
  finalizeList. The items are the children of the parent of the list, and the sub-items
  of an item are the children of the parent of the item, as the source has it. The inner
  loop answers whether it sets \<open>list.Tight = false\<close>.
\<close>

fun subItemsLoop :: "node list \<Rightarrow> bool \<Rightarrow> nat \<Rightarrow> nat \<Rightarrow> nat list \<Rightarrow> bool" where
  "subItemsLoop ns isLastItem lastSubItemIdx j [] = False"
| "subItemsLoop ns isLastItem lastSubItemIdx j (subItem # rest) =
     (if (\<not> isLastItem \<or> \<not> (j = lastSubItemIdx)) \<and> endsWithBlankLine ns (Some subItem) then True
      else subItemsLoop ns isLastItem lastSubItemIdx (j + 1) rest)"

fun itemsLoop :: "parser \<Rightarrow> nat \<Rightarrow> nat \<Rightarrow> nat \<Rightarrow> nat list \<Rightarrow> fault + parser" where
  "itemsLoop p l lastItemIdx i [] = Inr p"
| "itemsLoop p l lastItemIdx i (item # rest) =
     (if \<not> (i = lastItemIdx) \<and> endsWithBlankLine (nodes p) (Some item)
      then Inr (setNode p l (\<lambda>n. n\<lparr>Tight := False\<rparr>))
      else (case GetParent p item of
              None \<Rightarrow> Inl NilDereference
            | Some par \<Rightarrow>
                (let subItems = GetChildren p par;
                     p1 = (if subItemsLoop (nodes p) (i = lastItemIdx) (length subItems - 1) 0 subItems
                           then setNode p l (\<lambda>n. n\<lparr>Tight := False\<rparr>) else p)
                 in itemsLoop p1 l lastItemIdx (i + 1) rest)))"

definition finalizeList :: "parser \<Rightarrow> nat \<Rightarrow> fault + parser" where
  "finalizeList p l =
     (case GetParent p l of
        None \<Rightarrow> Inl NilDereference
      | Some par \<Rightarrow> (let items = GetChildren p par in itemsLoop p l (length items - 1) 0 items))"

subsection \<open>The list\<close>

text \<open>
  The loop of \<open>list\<close> over the items, from \<open>i\<close>, with the list node \<open>block\<close>; it returns the
  final \<open>i\<close>.
\<close>

function listLoop ::
  "(parser \<Rightarrow> bytes \<Rightarrow> fault + parser) \<Rightarrow> parser \<Rightarrow> nat \<Rightarrow> bytes \<Rightarrow> nat \<Rightarrow> listFlag set
     \<Rightarrow> fault + (parser \<times> nat)" where
  "listLoop blk p block data i flags =
     (if i < length data
      then (case listItem blk p (drop i data) flags of
              Inl e \<Rightarrow> Inl e
            | Inr (p1, flags1, skip) \<Rightarrow>
                (let p2 = (if ListItemContainsBlock \<in> flags1
                           then setNode p1 block (\<lambda>n. n\<lparr>Tight := False\<rparr>) else p1)
                 in if skip = 0 \<or> ListItemEndOfList \<in> flags1 then Inr (p2, i + skip)
                    else listLoop blk p2 block data (i + skip) (flags1 - {ListItemBeginningOfList})))
      else Inr (p, i))"
  by pat_completeness auto
termination
  by (relation "measure (\<lambda>(blk, p, block, data, i, flags). length data - i)") auto

declare listLoop.simps [simp del]

definition listB ::
  "(parser \<Rightarrow> bytes \<Rightarrow> fault + parser) \<Rightarrow> parser \<Rightarrow> bytes \<Rightarrow> listFlag set \<Rightarrow> int \<Rightarrow> char
     \<Rightarrow> fault + (parser \<times> nat)" where
  "listB blk p data flags start delim =
     (let flags1 = flags \<union> {ListItemBeginningOfList}
      in bindE (AddBlock p ((newNode List)
                             \<lparr>ListFlags := flags1, Tight := True, Start := start,
                                Delimiter := delim\<rparr>))
           (\<lambda>(p1, block).
              bindE (listLoop blk p1 block data 0 flags1)
                (\<lambda>(p2, i). let above = GetParent p2 block
                            in bindE (finalizeList p2 block) (\<lambda>p3. Inr (p3\<lparr>tip := above\<rparr>, i)))))"

section \<open>Paragraphs and the dispatcher\<close>

subsection \<open>Sequences of tests\<close>

text \<open>
  The body of the loop of \<open>paragraph\<close> and the body of the loop of \<open>Block\<close> are sequences of
  tests. A test either ends the iteration (with \<open>return\<close> in paragraph, with \<open>continue\<close> in
  Block) or falls through to the next test. In the model a test takes the parser and
  answers the parser it leaves and \<open>Some r\<close>, the result that ends the iteration, or \<open>None\<close>.
\<close>

type_synonym 'r step = "parser \<Rightarrow> fault + (parser \<times> 'r option)"

definition orElse :: "'r step \<Rightarrow> 'r step \<Rightarrow> 'r step" where
  "orElse s t p =
     (case s p of
        Inl e \<Rightarrow> Inl e
      | Inr (p1, Some r) \<Rightarrow> Inr (p1, Some r)
      | Inr (p1, None) \<Rightarrow> t p1)"

fun firstOf :: "'r step list \<Rightarrow> 'r step" where
  "firstOf [] p = Inr (p, None)"
| "firstOf (s # ss) p = orElse s (firstOf ss) p"

subsection \<open>renderParagraph\<close>

text \<open>\<open>for end > beg && data[end-1] == ' '\<close>, from \<open>end\<close> downwards.\<close>

fun backCharFrom :: "bytes \<Rightarrow> nat \<Rightarrow> nat \<Rightarrow> char \<Rightarrow> nat" where
  "backCharFrom data 0 beg c = 0"
| "backCharFrom data (Suc e) beg c =
     (if Suc e > beg \<and> data ! e = c then backCharFrom data e beg c else Suc e)"

definition renderParagraph :: "parser \<Rightarrow> bytes \<Rightarrow> fault + parser" where
  "renderParagraph p data =
     (if length data = 0 then Inr p
      else (let beg = skipChar data 0 sp;
                end0 = (if data ! (length data - 1) = nl then length data - 1 else length data);
                end1 = backCharFrom data end0 beg sp
            in bindE (AddBlock p ((newNode Paragraph)\<lparr>Content := slice data beg end1\<rparr>))
                 (\<lambda>(p1, b). Inr p1)))"

subsection \<open>paragraph\<close>

text \<open>
  The tab sizes are declared outside block.go.
  Modelled from the spec: the tab width has a variant; the default is 4 and the variant 8.
\<close>

definition tabSizeDefault :: nat where "tabSizeDefault = 4"
definition tabSizeDouble :: nat where "tabSizeDouble = 8"

text \<open>
  The tests of the loop of \<open>paragraph\<close>, in the order of the source, for the line that
  begins at \<open>i\<close>; \<open>prev\<close> is the beginning of the line before. \<open>parEnd\<close> is
  \<open>p.renderParagraph(data[:i]); return i\<close>.
\<close>

definition parEnd :: "bytes \<Rightarrow> nat \<Rightarrow> nat \<Rightarrow> nat step" where
  "parEnd data i r p = bindE (renderParagraph p (take i data)) (\<lambda>p1. Inr (p1, Some r))"

definition parReference :: "collab \<Rightarrow> bytes \<Rightarrow> nat \<Rightarrow> nat step" where
  "parReference C data i p =
     (let tabSize = (if TabSizeEight \<in> extensions p then tabSizeDouble else tabSizeDefault)
      in case isReference C p (drop i data) tabSize of
           (p0, refEnd) \<Rightarrow> if refEnd > 0 then parEnd data i (i + refEnd) p0 else Inr (p0, None))"

definition parBlank ::
  "(parser \<Rightarrow> bytes \<Rightarrow> fault + parser) \<Rightarrow> bytes \<Rightarrow> nat \<Rightarrow> nat \<Rightarrow> nat step" where
  "parBlank blk data prev i p =
     (let n = IsEmpty (drop i data)
      in if n > 0
         then (if DefinitionLists \<in> extensions p \<and> i + 1 < length data \<and> data ! (i + 1) = CHR '':''
               then bindE (listB blk p (drop prev data) {ListTypeDefinition} 0 (CHR ''.''))
                      (\<lambda>(p1, listLen).
                         if listLen > 0 then Inr (p1, Some (prev + listLen))
                         else parEnd data i (i + n) p1)
               else parEnd data i (i + n) p)
         else Inr (p, None))"

text \<open>
  The underlined heading: the paragraph ended on the line before, which becomes the
  heading. \<open>for prev < eol && data[prev] == ' '\<close> is skipChar on the first \<open>eol\<close> bytes.
\<close>

definition parUnderline :: "collab \<Rightarrow> bytes \<Rightarrow> nat \<Rightarrow> nat \<Rightarrow> nat step" where
  "parUnderline C data prev i p =
     (let level = isUnderlinedHeading (drop i data)
      in if i > 0 \<and> level > 0
         then bindE (renderParagraph p (take prev data))
                (\<lambda>p1. let eol = i - 1;
                           prev1 = skipChar (take eol data) prev sp;
                           eol1 = backCharFrom data eol prev1 sp;
                           content = slice data prev1 eol1;
                           auto = (AutoHeadingIDs \<in> extensions p1);
                           block = (newNode Heading)
                                     \<lparr>Level := level,
                                        HeadingID := (if auto then autoId C content else []),
                                        Content := content\<rparr>;
                           p2 = (if auto
                                 then p1\<lparr>allHeadingsWithAutoID :=
                                            allHeadingsWithAutoID p1 @ [length (nodes p1)]\<rparr>
                                 else p1)
                       in bindE (AddBlock p2 block)
                            (\<lambda>(p3, b). Inr (p3, Some (skipUntilChar data i nl))))
         else Inr (p, None))"

definition parLaxHTML :: "collab \<Rightarrow> bytes \<Rightarrow> nat \<Rightarrow> nat step" where
  "parLaxHTML C data i p =
     (if LaxHTMLBlocks \<in> extensions p \<and> data ! i = CHR ''<''
      then bindE (html C p (drop i data) False)
             (\<lambda>(p1, n). if n > 0 then parEnd data i i p1 else Inr (p1, None))
      else Inr (p, None))"

definition parHeadingOrRule :: "bytes \<Rightarrow> nat \<Rightarrow> nat step" where
  "parHeadingOrRule data i p =
     (if isPrefixHeading (extensions p) (drop i data)
         \<or> isPrefixSpecialHeading (extensions p) (drop i data)
      then parEnd data i i p
      else bindE (isHRule (drop i data)) (\<lambda>hr. if hr then parEnd data i i p else Inr (p, None)))"

definition parQuote :: "bytes \<Rightarrow> nat \<Rightarrow> nat step" where
  "parQuote data i p = (if quotePrefix (drop i data) > 0 then parEnd data i i p else Inr (p, None))"

definition parFenced :: "collab \<Rightarrow> bytes \<Rightarrow> nat \<Rightarrow> nat step" where
  "parFenced C data i p =
     (if FencedCode \<in> extensions p
      then bindE (fencedCodeBlock C p (drop i data) False)
             (\<lambda>(p1, n). if n > 0 then parEnd data i i p1 else Inr (p1, None))
      else Inr (p, None))"

definition parFigure :: "collab \<Rightarrow> bytes \<Rightarrow> nat \<Rightarrow> nat step" where
  "parFigure C data i p =
     (if Mmark \<in> extensions p
      then (case figureBlock C p (drop i data) False of
              (p1, n) \<Rightarrow> if n > 0 then parEnd data i i p1 else Inr (p1, None))
      else Inr (p, None))"

definition parTable :: "collab \<Rightarrow> bytes \<Rightarrow> nat \<Rightarrow> nat step" where
  "parTable C data i p =
     (if Tables \<in> extensions p \<and> tableHeader C p (drop i data) False > 0 then parEnd data i i p
      else Inr (p, None))"

definition parDefinition ::
  "(parser \<Rightarrow> bytes \<Rightarrow> fault + parser) \<Rightarrow> bytes \<Rightarrow> nat \<Rightarrow> nat \<Rightarrow> nat step" where
  "parDefinition blk data prev i p =
     (if DefinitionLists \<in> extensions p \<and> dliPrefix (drop i data) \<noteq> 0
      then bindE (listB blk p (drop prev data) {ListTypeDefinition} 0 (CHR ''.''))
             (\<lambda>(p1, ret). Inr (p1, Some (ret + prev)))
      else Inr (p, None))"

definition parNoEmptyLine :: "bytes \<Rightarrow> nat \<Rightarrow> nat step" where
  "parNoEmptyLine data i p =
     (if NoEmptyLineBeforeBlock \<in> extensions p
         \<and> (uliPrefix (drop i data) \<noteq> 0 \<or> oliPrefix (drop i data) \<noteq> 0
            \<or> quotePrefix (drop i data) \<noteq> 0 \<or> codePrefix (drop i data) \<noteq> 0)
      then parEnd data i i p
      else Inr (p, None))"

definition parStep ::
  "(parser \<Rightarrow> bytes \<Rightarrow> fault + parser) \<Rightarrow> collab \<Rightarrow> bytes \<Rightarrow> nat \<Rightarrow> nat \<Rightarrow> nat step" where
  "parStep blk C data prev i =
     firstOf [parReference C data i, parBlank blk data prev i, parUnderline C data prev i,
              parLaxHTML C data i, parHeadingOrRule data i, parQuote data i, parFenced C data i,
              parFigure C data i, parTable C data i, parDefinition blk data prev i,
              parNoEmptyLine data i]"

text \<open>
  The loop of \<open>paragraph\<close>. At the head of an iteration \<open>line\<close> is the beginning of the line
  before \<open>i\<close>; the iteration takes it as \<open>prev\<close>. A line none of the tests ends is skipped:
  \<open>i\<close> goes behind the next newline or to the end of the buffer.
\<close>

function parLoop ::
  "(parser \<Rightarrow> bytes \<Rightarrow> fault + parser) \<Rightarrow> collab \<Rightarrow> parser \<Rightarrow> bytes \<Rightarrow> nat \<Rightarrow> nat
     \<Rightarrow> fault + (parser \<times> nat)" where
  "parLoop blk C p data line i =
     (if i < length data
      then (case parStep blk C data line i p of
              Inl e \<Rightarrow> Inl e
            | Inr (p1, Some r) \<Rightarrow> Inr (p1, r)
            | Inr (p1, None) \<Rightarrow>
                parLoop blk C p1 data i (skipCharN data (skipUntilChar data i nl) nl 1))
      else bindE (renderParagraph p (take i data)) (\<lambda>p1. Inr (p1, i)))"
  by pat_completeness auto
termination
proof (relation "measure (\<lambda>(blk, C, p, data, line, i). length data - i)", goal_cases)
  case 1
  show ?case by simp
next
  case (2 blk C p data line i x2 x1 x2a)
  then show ?case using lineEnd_gt[of i data] by simp
qed

declare parLoop.simps [simp del]

definition paragraphB ::
  "(parser \<Rightarrow> bytes \<Rightarrow> fault + parser) \<Rightarrow> collab \<Rightarrow> parser \<Rightarrow> bytes \<Rightarrow> fault + (parser \<times> nat)" where
  "paragraphB blk C p data = parLoop blk C p data 0 0"

subsection \<open>The dispatcher\<close>

text \<open>
  The tests of the loop of \<open>Block\<close>, in the order of the source; the result that ends the
  iteration is the rest of the data. \<open>consume\<close> is \<open>data = data[f(data):]; continue\<close> and
  \<open>consumeIf\<close> is \<open>if i := f(data); i > 0 { data = data[i:]; continue }\<close>.
\<close>

definition consume :: "bytes \<Rightarrow> fault + (parser \<times> nat) \<Rightarrow> fault + (parser \<times> bytes option)" where
  "consume data m = bindE m (\<lambda>(p1, n). bindE (sliceFrom data n) (\<lambda>d. Inr (p1, Some d)))"

definition consumeIf :: "bytes \<Rightarrow> fault + (parser \<times> nat) \<Rightarrow> fault + (parser \<times> bytes option)" where
  "consumeIf data m =
     bindE m (\<lambda>(p1, n). if n > 0 then bindE (sliceFrom data n) (\<lambda>d. Inr (p1, Some d))
                         else Inr (p1, None))"

text \<open>
  The include stack is declared outside block.go.
  Modelled from the spec: an include stack of in-progress transclusion paths, pushed and
  popped around the parse of the included text; the last path of an empty stack is empty.
  A slice beyond the length of the data is a fault in the model, which has no capacity
  beyond the length.
\<close>

definition includeLast :: "parser \<Rightarrow> bytes" where
  "includeLast p = (if includeStack p = [] then [] else last (includeStack p))"

definition includePush :: "parser \<Rightarrow> bytes \<Rightarrow> parser" where
  "includePush p path = p\<lparr>includeStack := includeStack p @ [path]\<rparr>"

definition includePop :: "parser \<Rightarrow> parser" where
  "includePop p = p\<lparr>includeStack := butlast (includeStack p)\<rparr>"

text \<open>The loop over the three captions: the first that matches, with its length.\<close>

fun includeCaption :: "collab \<Rightarrow> parser \<Rightarrow> bytes \<Rightarrow> bytes list \<Rightarrow> nat" where
  "includeCaption C p rest [] = 0"
| "includeCaption C p rest (cap # caps) =
     (case caption C p rest cap of
        (content, hid, capcon) \<Rightarrow> if capcon > 0 then capcon else includeCaption C p rest caps)"

definition stepInclude ::
  "(parser \<Rightarrow> bytes \<Rightarrow> fault + parser) \<Rightarrow> collab \<Rightarrow> bytes \<Rightarrow> bytes step" where
  "stepInclude blk C data p =
     (if Includes \<in> extensions p
      then (case isInclude C p data of
              (path0, address0, consumed0) \<Rightarrow>
                (case (if consumed0 = 0 then isCodeInclude C p data else (path0, address0, consumed0)) of
                   (path, address, consumed) \<Rightarrow>
                     if consumed > 0
                     then (let included =
                                 (if consumed0 = 0 then readCodeInclude C p (includeLast p) path address
                                  else readInclude C p (includeLast p) path address)
                           in bindE (sliceFrom data (consumed + 1))
                                (\<lambda>rest.
                                   let capcon = includeCaption C p rest
                                                  [captionFigure, captionTable, captionQuote]
                                   in if capcon > 0 \<and> capcon > length rest then Inl IndexOutOfRange
                                      else (let included1 = (if capcon > 0 then included @ take capcon rest
                                                             else included);
                                                consumed1 = (if capcon > 0 then consumed + 1 + capcon
                                                             else consumed)
                                            in bindE (blk (includePush p path) included1)
                                                 (\<lambda>p1. bindE (sliceFrom data consumed1)
                                                          (\<lambda>d. Inr (includePop p1, Some d))))))
                     else Inr (p, None)))
      else Inr (p, None))"

definition stepHook :: "(parser \<Rightarrow> bytes \<Rightarrow> fault + parser) \<Rightarrow> bytes \<Rightarrow> bytes step" where
  "stepHook blk data p =
     (case ParserHook p of
        None \<Rightarrow> Inr (p, None)
      | Some hook \<Rightarrow>
          (case hook data of
             (nd, blockdata, consumed) \<Rightarrow>
               if consumed > 0
               then bindE (sliceFrom data consumed)
                      (\<lambda>d. case nd of
                              None \<Rightarrow> Inr (p, Some d)
                            | Some n \<Rightarrow>
                                bindE (AddBlock p n)
                                  (\<lambda>(p1, b). case blockdata of
                                                None \<Rightarrow> Inr (p1, Some d)
                                              | Some bd \<Rightarrow>
                                                  bindE (blk p1 bd)
                                                    (\<lambda>p2. bindE (Finalize p2 (Some b))
                                                             (\<lambda>p3. Inr (p3, Some d)))))
               else Inr (p, None)))"

definition stepPrefixHeading :: "collab \<Rightarrow> bytes \<Rightarrow> bytes step" where
  "stepPrefixHeading C data p =
     (if isPrefixHeading (extensions p) data then consume data (prefixHeading C p data)
      else Inr (p, None))"

definition stepSpecialHeading :: "collab \<Rightarrow> bytes \<Rightarrow> bytes step" where
  "stepSpecialHeading C data p =
     (if isPrefixSpecialHeading (extensions p) data then consume data (prefixSpecialHeading C p data)
      else Inr (p, None))"

definition stepNoData :: "bytes \<Rightarrow> bytes step" where
  "stepNoData data p = (if length data = 0 then Inr (p, Some data) else Inr (p, None))"

definition stepHtml :: "collab \<Rightarrow> bytes \<Rightarrow> bytes step" where
  "stepHtml C data p =
     (if data ! 0 = CHR ''<'' then consumeIf data (html C p data True) else Inr (p, None))"

definition stepTitleblock :: "bytes \<Rightarrow> bytes step" where
  "stepTitleblock data p =
     (if Titleblock \<in> extensions p \<and> data ! 0 = CHR ''%''
      then consumeIf data (titleBlock p data True)
      else Inr (p, None))"

definition stepBlank :: "bytes \<Rightarrow> bytes step" where
  "stepBlank data p = consumeIf data (Inr (p, IsEmpty data))"

definition stepCode :: "collab \<Rightarrow> bytes \<Rightarrow> bytes step" where
  "stepCode C data p =
     (if codePrefix data > 0 then consume data (code C p data) else Inr (p, None))"

definition stepFenced :: "collab \<Rightarrow> bytes \<Rightarrow> bytes step" where
  "stepFenced C data p =
     (if FencedCode \<in> extensions p then consumeIf data (fencedCodeBlock C p data True)
      else Inr (p, None))"

definition stepHRule :: "bytes \<Rightarrow> bytes step" where
  "stepHRule data p =
     bindE (isHRule data)
       (\<lambda>hr. if hr
              then (let i = skipUntilChar data 0 nl
                    in bindE (AddBlock p ((newNode HorizontalRule)\<lparr>Literal := trimSpNl (take i data)\<rparr>))
                         (\<lambda>(p1, b). Inr (p1, Some (drop i data))))
              else Inr (p, None))"

definition stepQuote ::
  "(parser \<Rightarrow> bytes \<Rightarrow> fault + parser) \<Rightarrow> collab \<Rightarrow> bytes \<Rightarrow> bytes step" where
  "stepQuote blk C data p =
     (if quotePrefix data > 0 then consume data (quote blk C p data) else Inr (p, None))"

definition stepAside :: "collab \<Rightarrow> bytes \<Rightarrow> bytes step" where
  "stepAside C data p =
     (if Mmark \<in> extensions p \<and> asidePrefix C p data > 0 then consume data (Inr (aside C p data))
      else Inr (p, None))"

definition stepFigure :: "collab \<Rightarrow> bytes \<Rightarrow> bytes step" where
  "stepFigure C data p =
     (if Mmark \<in> extensions p then consumeIf data (Inr (figureBlock C p data True))
      else Inr (p, None))"

definition stepTable :: "collab \<Rightarrow> bytes \<Rightarrow> bytes step" where
  "stepTable C data p =
     (if Tables \<in> extensions p then consumeIf data (Inr (table C p data)) else Inr (p, None))"

definition stepUli :: "(parser \<Rightarrow> bytes \<Rightarrow> fault + parser) \<Rightarrow> bytes \<Rightarrow> bytes step" where
  "stepUli blk data p =
     (if uliPrefix data > 0 then consume data (listB blk p data {} 0 (CHR ''.''))
      else Inr (p, None))"

definition stepOli :: "(parser \<Rightarrow> bytes \<Rightarrow> fault + parser) \<Rightarrow> bytes \<Rightarrow> bytes step" where
  "stepOli blk data p =
     (if oliPrefix data > 0
      then (case orderedListArgs (extensions p) data (oliPrefix data) of
              (start, delim) \<Rightarrow> consume data (listB blk p data {ListTypeOrdered} start delim))
      else Inr (p, None))"

definition stepDli :: "(parser \<Rightarrow> bytes \<Rightarrow> fault + parser) \<Rightarrow> bytes \<Rightarrow> bytes step" where
  "stepDli blk data p =
     (if DefinitionLists \<in> extensions p \<and> dliPrefix data > 0
      then consume data (listB blk p data {ListTypeDefinition} 0 (CHR ''.''))
      else Inr (p, None))"

definition stepMath :: "bytes \<Rightarrow> bytes step" where
  "stepMath data p =
     (if MathJax \<in> extensions p then consumeIf data (blockMath p data) else Inr (p, None))"

definition stepMatter :: "collab \<Rightarrow> bytes \<Rightarrow> bytes step" where
  "stepMatter C data p =
     (if Mmark \<in> extensions p then consumeIf data (Inr (documentMatter C p data))
      else Inr (p, None))"

definition stepParagraph ::
  "(parser \<Rightarrow> bytes \<Rightarrow> fault + parser) \<Rightarrow> collab \<Rightarrow> bytes \<Rightarrow> bytes step" where
  "stepParagraph blk C data p = consume data (paragraphB blk C p data)"

text \<open>
  One iteration of the loop of \<open>Block\<close>, for \<open>len(data) > 0\<close>: the attributes, which change
  the data the tests see, then the tests. The last test, the paragraph, always ends the
  iteration. The result is the parser and the data of the next iteration.
\<close>

definition blockSteps ::
  "(parser \<Rightarrow> bytes \<Rightarrow> fault + parser) \<Rightarrow> collab \<Rightarrow> bytes \<Rightarrow> bytes step list" where
  "blockSteps blk C data =
     [stepInclude blk C data, stepHook blk data, stepPrefixHeading C data,
      stepSpecialHeading C data, stepNoData data, stepHtml C data, stepTitleblock data,
      stepBlank data, stepCode C data, stepFenced C data, stepHRule data, stepQuote blk C data,
      stepAside C data, stepFigure C data, stepTable C data, stepUli blk data, stepOli blk data,
      stepDli blk data, stepMath data, stepMatter C data]"

definition blockStep ::
  "(parser \<Rightarrow> bytes \<Rightarrow> fault + parser) \<Rightarrow> collab \<Rightarrow> parser \<Rightarrow> bytes \<Rightarrow> fault + (parser \<times> bytes)" where
  "blockStep blk C p data =
     (case (if Attributes \<in> extensions p then attribute C p data else (p, data)) of
        (p1, data1) \<Rightarrow>
          bindE (orElse (firstOf (blockSteps blk C data1)) (stepParagraph blk C data1) p1)
            (\<lambda>(p2, r). case r of Some d \<Rightarrow> Inr (p2, d) | None \<Rightarrow> Inr (p2, data1)))"

text \<open>
  The loop of \<open>Block\<close> and \<open>Block\<close>. The model has fuel: \<open>Block C n\<close> makes recursive calls to
  \<open>Block C (n - 1)\<close> and at most \<open>n - 1\<close> iterations of its loop; where the fuel does not
  suffice the answer is \<open>OutOfFuel\<close>. The test of the nesting stands before everything
  else, as in the source.
\<close>

fun BlockLoop ::
  "(parser \<Rightarrow> bytes \<Rightarrow> fault + parser) \<Rightarrow> collab \<Rightarrow> nat \<Rightarrow> parser \<Rightarrow> bytes \<Rightarrow> fault + parser" where
  "BlockLoop blk C 0 p data = (if length data > 0 then Inl OutOfFuel else Inr p)"
| "BlockLoop blk C (Suc k) p data =
     (if length data > 0
      then (case blockStep blk C p data of
              Inl e \<Rightarrow> Inl e
            | Inr (p1, data1) \<Rightarrow> BlockLoop blk C k p1 data1)
      else Inr p)"

fun Block :: "collab \<Rightarrow> nat \<Rightarrow> parser \<Rightarrow> bytes \<Rightarrow> fault + parser" where
  "Block C 0 p data = (if nesting p \<ge> maxNesting p then Inr p else Inl OutOfFuel)"
| "Block C (Suc n) p data =
     (if nesting p \<ge> maxNesting p then Inr p
      else bindE (BlockLoop (Block C n) C n (p\<lparr>nesting := nesting p + 1\<rparr>) data)
             (\<lambda>p1. Inr (p1\<lparr>nesting := nesting p1 - 1\<rparr>)))"

section \<open>The nesting counter\<close>

text \<open>
  \<open>frame p p'\<close>: the parser \<open>p'\<close> has the nesting counter, the nesting cap and the extensions
  of \<open>p\<close>. The collaborators outside block.go that return a parser are taken to leave it
  in the frame of the parser they get (\<open>collab_frame\<close>); \<open>blk_frame\<close> says the same of a
  recursive call, the parameter \<open>blk\<close>, and \<open>step_frame\<close> of a test.
\<close>

definition frame :: "parser \<Rightarrow> parser \<Rightarrow> bool" where
  "frame p p' \<longleftrightarrow>
     nesting p' = nesting p \<and> maxNesting p' = maxNesting p \<and> extensions p' = extensions p"

definition collab_frame :: "collab \<Rightarrow> bool" where
  "collab_frame C \<longleftrightarrow>
     (\<forall>p d. frame p (fst (attribute C p d)))
     \<and> (\<forall>p n d. frame p (fst (Inline C p n d)))
     \<and> (\<forall>p d. frame p (fst (aside C p d)))
     \<and> (\<forall>p d r. frame p (fst (figureBlock C p d r)))
     \<and> (\<forall>p d. frame p (fst (table C p d)))
     \<and> (\<forall>p d. frame p (fst (documentMatter C p d)))
     \<and> (\<forall>p d t. frame p (fst (isReference C p d t)))"

definition blk_frame :: "(parser \<Rightarrow> bytes \<Rightarrow> fault + parser) \<Rightarrow> bool" where
  "blk_frame blk \<longleftrightarrow> (\<forall>p d p'. blk p d = Inr p' \<longrightarrow> frame p p')"

definition step_frame :: "'r step \<Rightarrow> bool" where
  "step_frame s \<longleftrightarrow> (\<forall>p p' r. s p = Inr (p', r) \<longrightarrow> frame p p')"

subsection \<open>The frame of the tree operations and of the recognizers\<close>

lemma frame_refl: "frame p p"
  by (simp add: frame_def)

lemma frame_trans: "frame p q \<Longrightarrow> frame q r \<Longrightarrow> frame p r"
  by (simp add: frame_def)

lemma addChild_frame: "addChild p nd = Inr (p', n) \<Longrightarrow> frame p p'"
  by (auto simp: addChild_def Let_def bindE_Inr_iff setNode_def frame_def split: option.splits)

lemma AddBlock_frame: "AddBlock p nd = Inr (p', n) \<Longrightarrow> frame p p'"
  by (auto simp: AddBlock_def closeUnmatchedBlocks_def frame_def split: option.splits
      dest!: addChild_frame)

lemma Finalize_frame: "Finalize p b = Inr p' \<Longrightarrow> frame p p'"
  by (auto simp: Finalize_def frame_def split: option.splits if_splits)

lemma finalizeCodeBlockAt_frame: "finalizeCodeBlockAt C p b = Inr p' \<Longrightarrow> frame p p'"
  by (auto simp: finalizeCodeBlockAt_def bindE_Inr_iff frame_def)

lemma finalizeHTMLBlock_frame: "frame p (finalizeHTMLBlock p b)"
  by (simp add: finalizeHTMLBlock_def setNode_def frame_def)

lemma collab_frameD:
  assumes "collab_frame C"
  shows "attribute C p d = (p', x) \<Longrightarrow> frame p p'"
    and "Inline C p n d = (p', y) \<Longrightarrow> frame p p'"
    and "aside C p d = (p', k) \<Longrightarrow> frame p p'"
    and "figureBlock C p d r = (p', k) \<Longrightarrow> frame p p'"
    and "table C p d = (p', k) \<Longrightarrow> frame p p'"
    and "documentMatter C p d = (p', k) \<Longrightarrow> frame p p'"
    and "isReference C p d t = (p', k) \<Longrightarrow> frame p p'"
proof -
  from assms have a: "frame p (fst (attribute C p d))" by (simp add: collab_frame_def)
  from assms have b: "frame p (fst (Inline C p n d))" by (simp add: collab_frame_def)
  from assms have c: "frame p (fst (aside C p d))" by (simp add: collab_frame_def)
  from assms have e: "frame p (fst (figureBlock C p d r))" by (simp add: collab_frame_def)
  from assms have f: "frame p (fst (table C p d))" by (simp add: collab_frame_def)
  from assms have g: "frame p (fst (documentMatter C p d))" by (simp add: collab_frame_def)
  from assms have h: "frame p (fst (isReference C p d t))" by (simp add: collab_frame_def)
  show "attribute C p d = (p', x) \<Longrightarrow> frame p p'" using a by simp
  show "Inline C p n d = (p', y) \<Longrightarrow> frame p p'" using b by simp
  show "aside C p d = (p', k) \<Longrightarrow> frame p p'" using c by simp
  show "figureBlock C p d r = (p', k) \<Longrightarrow> frame p p'" using e by simp
  show "table C p d = (p', k) \<Longrightarrow> frame p p'" using f by simp
  show "documentMatter C p d = (p', k) \<Longrightarrow> frame p p'" using g by simp
  show "isReference C p d t = (p', k) \<Longrightarrow> frame p p'" using h by simp
qed

lemma blk_frameD: "blk_frame blk \<Longrightarrow> blk p d = Inr p' \<Longrightarrow> frame p p'"
  by (simp add: blk_frame_def)

lemma addHeading_frame: "addHeading C p block content = Inr p' \<Longrightarrow> frame p p'"
  by (auto simp: addHeading_def Let_def bindE_Inr_iff frame_def split: if_splits
      dest!: AddBlock_frame)

lemma prefixHeading_frame: "prefixHeading C p data = Inr (p', r) \<Longrightarrow> frame p p'"
  by (auto simp: prefixHeading_def Let_def bindE_Inr_iff frame_def split: if_splits prod.splits
      dest!: addHeading_frame)

lemma prefixSpecialHeading_frame: "prefixSpecialHeading C p data = Inr (p', r) \<Longrightarrow> frame p p'"
  by (auto simp: prefixSpecialHeading_def Let_def bindE_Inr_iff frame_def
      split: if_splits prod.splits dest!: addHeading_frame)

lemma titleBlock_frame: "titleBlock p data r = Inr (p', k) \<Longrightarrow> frame p p'"
  by (auto simp: titleBlock_def Let_def bindE_Inr_iff frame_def split: if_splits
      dest!: AddBlock_frame)

lemma renderHTML_frame: "renderHTML p data n = Inr p' \<Longrightarrow> frame p p'"
  using finalizeHTMLBlock_frame
  by (auto simp: renderHTML_def Let_def bindE_Inr_iff frame_def dest!: AddBlock_frame)

lemma htmlComment_frame: "htmlComment C p data r = Inr (p', k) \<Longrightarrow> frame p p'"
  by (auto simp: htmlComment_def Let_def bindE_Inr_iff frame_def split: if_splits
      dest!: renderHTML_frame)

lemma htmlHr_frame: "htmlHr p data r = Inr (p', k) \<Longrightarrow> frame p p'"
  by (auto simp: htmlHr_def Let_def bindE_Inr_iff frame_def split: if_splits
      dest!: renderHTML_frame)

lemma html_frame: "html C p data r = Inr (p', k) \<Longrightarrow> frame p p'"
  by (auto simp: html_def Let_def bindE_Inr_iff frame_def
      split: if_splits prod.splits option.splits
      dest!: renderHTML_frame htmlComment_frame htmlHr_frame)

lemma code_frame: "code C p data = Inr (p', k) \<Longrightarrow> frame p p'"
  by (auto simp: code_def Let_def bindE_Inr_iff frame_def split: prod.splits
      dest!: AddBlock_frame finalizeCodeBlockAt_frame)

lemma blockMath_frame: "blockMath p data = Inr (p', k) \<Longrightarrow> frame p p'"
  by (auto simp: blockMath_def Let_def bindE_Inr_iff frame_def split: if_splits
      dest!: AddBlock_frame)

lemma renderParagraph_frame: "renderParagraph p data = Inr p' \<Longrightarrow> frame p p'"
  by (auto simp: renderParagraph_def Let_def bindE_Inr_iff frame_def split: if_splits
      dest!: AddBlock_frame)

lemma fencedCodeBlock_frame:
  assumes "collab_frame C" and "fencedCodeBlock C p data r = Inr (p', k)"
  shows "frame p p'"
proof (cases "fencedCodeBlockScan data")
  case None
  with assms(2) show ?thesis by (simp add: fencedCodeBlock_def frame_def)
next
  case (Some a)
  obtain b w where a: "a = (b, w)" by (cases a) auto
  show ?thesis
  proof (cases "r \<and> Mmark \<in> extensions p")
    case False
    show ?thesis
    proof (cases r)
      case False
      with assms(2) Some a show ?thesis by (simp add: fencedCodeBlock_def frame_def)
    next
      case True
      with False have "Mmark \<notin> extensions p" by simp
      with True assms(2) Some a show ?thesis
        by (auto simp: fencedCodeBlock_def Let_def bindE_Inr_iff frame_def
            dest!: AddBlock_frame finalizeCodeBlockAt_frame)
    qed
  next
    case True
    with assms(2) Some a obtain rest where rest: "sliceFrom data b = Inr rest"
      by (auto simp: fencedCodeBlock_def Let_def bindE_Inr_iff)
    obtain cc hid consumed where cap: "caption C p rest captionFigure = (cc, hid, consumed)"
      by (cases "caption C p rest captionFigure") auto
    obtain p0 cap' where inl: "Inline C p (newNode Caption) cc = (p0, cap')"
      by (cases "Inline C p (newNode Caption) cc") auto
    show ?thesis
    proof (cases "consumed > 0")
      case False
      with assms(2) Some a True rest cap show ?thesis
        by (auto simp: fencedCodeBlock_def Let_def bindE_Inr_iff frame_def
            dest!: AddBlock_frame finalizeCodeBlockAt_frame)
    next
      case c: True
      have f0: "frame p p0" using collab_frameD(2)[OF assms(1) inl] .
      from assms(2) Some a True rest cap inl c have "frame p0 p'"
        by (auto simp: fencedCodeBlock_def Let_def bindE_Inr_iff frame_def
            dest!: AddBlock_frame addChild_frame finalizeCodeBlockAt_frame Finalize_frame)
      with f0 show ?thesis by (rule frame_trans)
    qed
  qed
qed

lemma quoteRender_frame:
  assumes "blk_frame blk" and "quoteRender blk p raw e = Inr (p', k)"
  shows "frame p p'"
  using assms(2)
  by (auto simp: quoteRender_def bindE_Inr_iff frame_def
      dest!: AddBlock_frame Finalize_frame blk_frameD[OF assms(1)])

lemma quote_frame:
  assumes "collab_frame C" and "blk_frame blk" and "quote blk C p data = Inr (p', k)"
  shows "frame p p'"
proof -
  obtain raw e where l: "quoteLoop (extensions p) data 0 0 [] = (raw, e)"
    by (cases "quoteLoop (extensions p) data 0 0 []") auto
  show ?thesis
  proof (cases "Mmark \<in> extensions p")
    case False
    with assms(3) l have "quoteRender blk p raw e = Inr (p', k)" by (simp add: quote_def)
    then show ?thesis by (rule quoteRender_frame[OF assms(2)])
  next
    case True
    with assms(3) l obtain rest where rest: "sliceFrom data e = Inr rest"
      by (auto simp: quote_def bindE_Inr_iff)
    obtain cc hid consumed where cap: "caption C p rest captionQuote = (cc, hid, consumed)"
      by (cases "caption C p rest captionQuote") auto
    obtain p0 cap' where inl: "Inline C p (newNode Caption) cc = (p0, cap')"
      by (cases "Inline C p (newNode Caption) cc") auto
    show ?thesis
    proof (cases "consumed > 0")
      case False
      with assms(3) l True rest cap have "quoteRender blk p raw e = Inr (p', k)"
        by (simp add: quote_def bindE_def)
      then show ?thesis by (rule quoteRender_frame[OF assms(2)])
    next
      case c: True
      have f0: "frame p p0" using collab_frameD(2)[OF assms(1) inl] .
      from assms(3) l True rest cap inl c have "frame p0 p'"
        by (auto simp: quote_def bindE_Inr_iff frame_def
            dest!: AddBlock_frame addChild_frame Finalize_frame blk_frameD[OF assms(2)])
      with f0 show ?thesis by (rule frame_trans)
    qed
  qed
qed

lemma renderItem_frame:
  assumes "blk_frame blk" and "renderItem blk p rawBytes sl flags = Inr p'"
  shows "frame p p'"
  using assms(2)
  by (auto simp: renderItem_def bindE_Inr_iff frame_def split: if_splits
      dest!: addChild_frame blk_frameD[OF assms(1)])

lemma listItem_frame:
  assumes "blk_frame blk" and "listItem blk p data flags = Inr (p', fl, k)"
  shows "frame p p'"
  using assms(2)
  by (auto simp: listItem_def Let_def bindE_Inr_iff frame_def split: option.splits
      dest!: AddBlock_frame renderItem_frame[OF assms(1)])

lemma setNode_frame: "frame p (setNode p i f)"
  by (simp add: setNode_def frame_def)

lemma endsWithBlankLine_never: "\<not> endsWithBlankLine ns block"
proof (induction ns block rule: endsWithBlankLine.induct)
  case (1 ns block)
  show ?case
  proof (cases block)
    case None
    then show ?thesis by (subst endsWithBlankLine.simps) simp
  next
    case (Some b)
    show ?thesis
    proof (cases "b < length ns \<and> (kind (ns ! b) = List \<or> kind (ns ! b) = ListItem)")
      case False
      with Some show ?thesis by (subst endsWithBlankLine.simps) auto
    next
      case t: True
      show ?thesis
      proof (cases "Children (ns ! b) = []")
        case True
        with "1.IH"(1)[OF Some t True] Some t show ?thesis
          by (subst endsWithBlankLine.simps) simp
      next
        case False
        show ?thesis
        proof (cases "b < last (Children (ns ! b))")
          case True
          with "1.IH"(2)[OF Some t False True] Some t False show ?thesis
            by (subst endsWithBlankLine.simps) simp
        next
          case f: False
          with Some t False show ?thesis by (subst endsWithBlankLine.simps) simp
        qed
      qed
    qed
  qed
qed

lemma subItemsLoop_never: "\<not> subItemsLoop ns isLastItem lastIdx j subItems"
  by (induction subItems arbitrary: j) (simp_all add: endsWithBlankLine_never)

lemma itemsLoop_id: "itemsLoop p l lastIdx i items = Inr p' \<Longrightarrow> p' = p"
  by (induction items arbitrary: i)
     (auto simp: endsWithBlankLine_never subItemsLoop_never Let_def split: option.splits)

lemma finalizeList_id: "finalizeList p l = Inr p' \<Longrightarrow> p' = p"
  by (auto simp: finalizeList_def Let_def split: option.splits dest: itemsLoop_id)

lemma finalizeList_frame: "finalizeList p l = Inr p' \<Longrightarrow> frame p p'"
  by (auto dest: finalizeList_id simp: frame_def)

lemma listLoop_frame:
  "blk_frame blk \<Longrightarrow> listLoop blk p block data i flags = Inr (p', k) \<Longrightarrow> frame p p'"
proof (induction blk p block data i flags rule: listLoop.induct)
  case (1 blk p block data i flags)
  note bf = "1.prems"(1) and run = "1.prems"(2)
  show ?case
  proof (cases "i < length data")
    case False
    with run show ?thesis by (subst (asm) listLoop.simps) (simp add: frame_def)
  next
    case True
    from run True obtain p1 flags1 skip where
      li: "listItem blk p (drop i data) flags = Inr (p1, flags1, skip)"
      by (subst (asm) listLoop.simps) (auto split: sum.splits)
    define p2 where "p2 = (if ListItemContainsBlock \<in> flags1
                           then setNode p1 block (\<lambda>n. n\<lparr>Tight := False\<rparr>) else p1)"
    have f1: "frame p p1" using listItem_frame[OF bf li] .
    have f2: "frame p1 p2" by (simp add: p2_def setNode_frame frame_refl)
    show ?thesis
    proof (cases "skip = 0 \<or> ListItemEndOfList \<in> flags1")
      case t: True
      with run True li have "p' = p2"
        by (subst (asm) listLoop.simps) (auto simp: p2_def Let_def)
      with f1 f2 show ?thesis by (simp add: frame_def)
    next
      case f: False
      with run True li have
        r: "listLoop blk p2 block data (i + skip) (flags1 - {ListItemBeginningOfList}) = Inr (p', k)"
        by (subst (asm) listLoop.simps) (auto simp: p2_def Let_def)
      have "frame p2 p'"
        using "1.IH"[OF True li refl refl _ f bf r] by (simp add: p2_def)
      with f1 f2 show ?thesis by (simp add: frame_def)
    qed
  qed
qed

lemma listB_frame:
  assumes "blk_frame blk" and "listB blk p data flags start delim = Inr (p', k)"
  shows "frame p p'"
  using assms(2)
  by (auto simp: listB_def Let_def bindE_Inr_iff frame_def
      dest!: AddBlock_frame listLoop_frame[OF assms(1)] finalizeList_frame)

lemma step_frameI: "(\<And>p p' r. s p = Inr (p', r) \<Longrightarrow> frame p p') \<Longrightarrow> step_frame s"
  by (simp add: step_frame_def)

lemma step_frameD: "step_frame s \<Longrightarrow> s p = Inr (p', r) \<Longrightarrow> frame p p'"
  by (simp add: step_frame_def)

lemma orElse_frame:
  assumes "step_frame s" and "step_frame t"
  shows "step_frame (orElse s t)"
proof (rule step_frameI)
  fix p p' r
  assume a: "orElse s t p = Inr (p', r)"
  show "frame p p'"
  proof (cases "s p")
    case (Inl e)
    with a show ?thesis by (simp add: orElse_def)
  next
    case (Inr x)
    obtain p1 r1 where x: "x = (p1, r1)" by (cases x) auto
    from Inr x have f1: "frame p p1" using step_frameD[OF assms(1)] by simp
    show ?thesis
    proof (cases r1)
      case None
      with a Inr x have "t p1 = Inr (p', r)" by (simp add: orElse_def)
      from step_frameD[OF assms(2) this] f1 show ?thesis by (simp add: frame_def)
    next
      case (Some y)
      with a Inr x have "p' = p1" by (simp add: orElse_def)
      with f1 show ?thesis by simp
    qed
  qed
qed

lemma firstOf_frame: "(\<And>s. s \<in> set ss \<Longrightarrow> step_frame s) \<Longrightarrow> step_frame (firstOf ss)"
proof (induction ss)
  case Nil
  show ?case by (rule step_frameI) (simp add: frame_def)
next
  case (Cons s ss)
  have "step_frame (orElse s (firstOf ss))"
    by (rule orElse_frame) (simp_all add: Cons)
  then show ?case by (simp add: step_frame_def)
qed

lemma parEnd_frame: "step_frame (parEnd data i r)"
  by (rule step_frameI) (auto simp: parEnd_def bindE_Inr_iff dest: renderParagraph_frame)

lemma parEnd_frameD: "parEnd data i r p = Inr (p', x) \<Longrightarrow> frame p p'"
  using parEnd_frame[of data i r] by (simp add: step_frame_def)

lemma parReference_frame:
  assumes "collab_frame C"
  shows "step_frame (parReference C data i)"
  by (rule step_frameI)
     (auto simp: parReference_def Let_def frame_def split: prod.splits if_splits
      dest!: collab_frameD(7)[OF assms] parEnd_frameD)

lemma parBlank_frame: "blk_frame blk \<Longrightarrow> step_frame (parBlank blk data prev i)"
  by (rule step_frameI)
     (auto simp: parBlank_def Let_def bindE_Inr_iff frame_def split: if_splits
      dest!: listB_frame parEnd_frameD)

lemma parUnderline_frame: "step_frame (parUnderline C data prev i)"
  by (rule step_frameI)
     (auto simp: parUnderline_def Let_def bindE_Inr_iff frame_def split: if_splits
      dest!: renderParagraph_frame AddBlock_frame)

lemma parLaxHTML_frame: "step_frame (parLaxHTML C data i)"
  by (rule step_frameI)
     (auto simp: parLaxHTML_def bindE_Inr_iff frame_def split: if_splits
      dest!: html_frame parEnd_frameD)

lemma parHeadingOrRule_frame: "step_frame (parHeadingOrRule data i)"
  by (rule step_frameI)
     (auto simp: parHeadingOrRule_def bindE_Inr_iff frame_def split: if_splits
      dest!: parEnd_frameD)

lemma parQuote_frame: "step_frame (parQuote data i)"
  by (rule step_frameI)
     (auto simp: parQuote_def frame_def split: if_splits dest!: parEnd_frameD)

lemma parFenced_frame:
  assumes "collab_frame C"
  shows "step_frame (parFenced C data i)"
  by (rule step_frameI)
     (auto simp: parFenced_def bindE_Inr_iff frame_def split: if_splits
      dest!: fencedCodeBlock_frame[OF assms] parEnd_frameD)

lemma parFigure_frame:
  assumes "collab_frame C"
  shows "step_frame (parFigure C data i)"
  by (rule step_frameI)
     (auto simp: parFigure_def frame_def split: if_splits prod.splits
      dest!: collab_frameD(4)[OF assms] parEnd_frameD)

lemma parTable_frame: "step_frame (parTable C data i)"
  by (rule step_frameI)
     (auto simp: parTable_def frame_def split: if_splits dest!: parEnd_frameD)

lemma parDefinition_frame: "blk_frame blk \<Longrightarrow> step_frame (parDefinition blk data prev i)"
  by (rule step_frameI)
     (auto simp: parDefinition_def bindE_Inr_iff frame_def split: if_splits
      dest!: listB_frame)

lemma parNoEmptyLine_frame: "step_frame (parNoEmptyLine data i)"
  by (rule step_frameI)
     (auto simp: parNoEmptyLine_def frame_def split: if_splits dest!: parEnd_frameD)

lemma parStep_frame:
  assumes "collab_frame C" and "blk_frame blk"
  shows "step_frame (parStep blk C data prev i)"
  unfolding parStep_def
  by (rule firstOf_frame)
     (auto simp: parReference_frame[OF assms(1)] parBlank_frame[OF assms(2)] parUnderline_frame
        parLaxHTML_frame parHeadingOrRule_frame parQuote_frame parFenced_frame[OF assms(1)]
        parFigure_frame[OF assms(1)] parTable_frame parDefinition_frame[OF assms(2)]
        parNoEmptyLine_frame)

lemma parLoop_frame:
  "collab_frame C \<Longrightarrow> blk_frame blk \<Longrightarrow> parLoop blk C p data line i = Inr (p', k) \<Longrightarrow> frame p p'"
proof (induction blk C p data line i rule: parLoop.induct)
  case (1 blk C p data line i)
  note cf = "1.prems"(1) and bf = "1.prems"(2) and run = "1.prems"(3)
  show ?case
  proof (cases "i < length data")
    case False
    with run show ?thesis
      by (subst (asm) parLoop.simps) (auto simp: bindE_Inr_iff dest: renderParagraph_frame)
  next
    case True
    from run True obtain p1 r where st: "parStep blk C data line i p = Inr (p1, r)"
      by (subst (asm) parLoop.simps) (auto split: sum.splits)
    have f1: "frame p p1" using step_frameD[OF parStep_frame[OF cf bf] st] .
    show ?thesis
    proof (cases r)
      case (Some x)
      with run True st have "p' = p1" by (subst (asm) parLoop.simps) simp
      with f1 show ?thesis by simp
    next
      case None
      with run True st have
        r: "parLoop blk C p1 data i (skipCharN data (skipUntilChar data i nl) nl 1) = Inr (p', k)"
        by (subst (asm) parLoop.simps) simp
      have "frame p1 p'" using "1.IH"[OF True st refl None cf bf r] .
      with f1 show ?thesis by (rule frame_trans)
    qed
  qed
qed

lemma paragraphB_frame:
  "collab_frame C \<Longrightarrow> blk_frame blk \<Longrightarrow> paragraphB blk C p data = Inr (p', k) \<Longrightarrow> frame p p'"
  unfolding paragraphB_def by (rule parLoop_frame)

lemma consume_frame:
  "consume data m = Inr (p', r) \<Longrightarrow> (\<And>p1 n. m = Inr (p1, n) \<Longrightarrow> frame p p1) \<Longrightarrow> frame p p'"
  by (auto simp: consume_def bindE_Inr_iff)

lemma consumeIf_frame:
  "consumeIf data m = Inr (p', r) \<Longrightarrow> (\<And>p1 n. m = Inr (p1, n) \<Longrightarrow> frame p p1) \<Longrightarrow> frame p p'"
  by (auto simp: consumeIf_def bindE_Inr_iff split: if_splits)

lemma stepInclude_frame:
  assumes "blk_frame blk"
  shows "step_frame (stepInclude blk C data)"
proof (rule step_frameI)
  fix p p' r
  assume a: "stepInclude blk C data p = Inr (p', r)"
  have i: "frame q (includePop q)" "frame q (includePush q x)" for q x
    by (simp_all add: includePop_def includePush_def frame_def)
  from a show "frame p p'"
    using i(2)[of p]
    by (auto simp: stepInclude_def Let_def bindE_Inr_iff frame_def includePop_def
        split: if_splits prod.splits dest!: blk_frameD[OF assms])
qed

lemma stepHook_frame:
  assumes "blk_frame blk"
  shows "step_frame (stepHook blk data)"
  by (rule step_frameI)
     (auto simp: stepHook_def bindE_Inr_iff frame_def
      split: option.splits prod.splits if_splits
      dest!: AddBlock_frame Finalize_frame blk_frameD[OF assms])

lemma stepPrefixHeading_frame: "step_frame (stepPrefixHeading C data)"
  by (rule step_frameI)
     (auto simp: stepPrefixHeading_def frame_refl split: if_splits
      elim!: consume_frame dest: prefixHeading_frame)

lemma stepSpecialHeading_frame: "step_frame (stepSpecialHeading C data)"
  by (rule step_frameI)
     (auto simp: stepSpecialHeading_def frame_refl split: if_splits
      elim!: consume_frame dest: prefixSpecialHeading_frame)

lemma stepNoData_frame: "step_frame (stepNoData data)"
  by (rule step_frameI) (auto simp: stepNoData_def frame_refl split: if_splits)

lemma stepHtml_frame: "step_frame (stepHtml C data)"
  by (rule step_frameI)
     (auto simp: stepHtml_def frame_refl split: if_splits
      elim!: consumeIf_frame dest: html_frame)

lemma stepTitleblock_frame: "step_frame (stepTitleblock data)"
  by (rule step_frameI)
     (auto simp: stepTitleblock_def frame_refl split: if_splits
      elim!: consumeIf_frame dest: titleBlock_frame)

lemma stepBlank_frame: "step_frame (stepBlank data)"
  by (rule step_frameI)
     (auto simp: stepBlank_def frame_refl elim!: consumeIf_frame)

lemma stepCode_frame: "step_frame (stepCode C data)"
  by (rule step_frameI)
     (auto simp: stepCode_def frame_refl split: if_splits
      elim!: consume_frame dest: code_frame)

lemma stepFenced_frame:
  assumes "collab_frame C"
  shows "step_frame (stepFenced C data)"
  by (rule step_frameI)
     (auto simp: stepFenced_def frame_refl split: if_splits
      elim!: consumeIf_frame dest: fencedCodeBlock_frame[OF assms])

lemma stepHRule_frame: "step_frame (stepHRule data)"
  by (rule step_frameI)
     (auto simp: stepHRule_def Let_def bindE_Inr_iff frame_refl split: if_splits
      dest: AddBlock_frame)

lemma stepQuote_frame: "collab_frame C \<Longrightarrow> blk_frame blk \<Longrightarrow> step_frame (stepQuote blk C data)"
  by (rule step_frameI)
     (auto simp: stepQuote_def frame_refl split: if_splits
      elim!: consume_frame dest: quote_frame)

lemma stepAside_frame:
  assumes "collab_frame C"
  shows "step_frame (stepAside C data)"
  by (rule step_frameI)
     (auto simp: stepAside_def frame_refl split: if_splits
      elim!: consume_frame dest: collab_frameD(3)[OF assms])

lemma stepFigure_frame:
  assumes "collab_frame C"
  shows "step_frame (stepFigure C data)"
  by (rule step_frameI)
     (auto simp: stepFigure_def frame_refl split: if_splits
      elim!: consumeIf_frame dest: collab_frameD(4)[OF assms])

lemma stepTable_frame:
  assumes "collab_frame C"
  shows "step_frame (stepTable C data)"
  by (rule step_frameI)
     (auto simp: stepTable_def frame_refl split: if_splits
      elim!: consumeIf_frame dest: collab_frameD(5)[OF assms])

lemma stepUli_frame: "blk_frame blk \<Longrightarrow> step_frame (stepUli blk data)"
  by (rule step_frameI)
     (auto simp: stepUli_def frame_refl split: if_splits
      elim!: consume_frame dest: listB_frame)

lemma stepOli_frame: "blk_frame blk \<Longrightarrow> step_frame (stepOli blk data)"
  by (rule step_frameI)
     (auto simp: stepOli_def frame_refl split: if_splits prod.splits
      elim!: consume_frame dest: listB_frame)

lemma stepDli_frame: "blk_frame blk \<Longrightarrow> step_frame (stepDli blk data)"
  by (rule step_frameI)
     (auto simp: stepDli_def frame_refl split: if_splits
      elim!: consume_frame dest: listB_frame)

lemma stepMath_frame: "step_frame (stepMath data)"
  by (rule step_frameI)
     (auto simp: stepMath_def frame_refl split: if_splits
      elim!: consumeIf_frame dest: blockMath_frame)

lemma stepMatter_frame:
  assumes "collab_frame C"
  shows "step_frame (stepMatter C data)"
  by (rule step_frameI)
     (auto simp: stepMatter_def frame_refl split: if_splits
      elim!: consumeIf_frame dest: collab_frameD(6)[OF assms])

lemma stepParagraph_frame:
  "collab_frame C \<Longrightarrow> blk_frame blk \<Longrightarrow> step_frame (stepParagraph blk C data)"
  by (rule step_frameI)
     (auto simp: stepParagraph_def elim!: consume_frame dest: paragraphB_frame)

lemma blockSteps_frame:
  assumes "collab_frame C" and "blk_frame blk"
  shows "step_frame (firstOf (blockSteps blk C data))"
  unfolding blockSteps_def
  by (rule firstOf_frame)
     (auto simp: stepInclude_frame[OF assms(2)] stepHook_frame[OF assms(2)]
        stepPrefixHeading_frame stepSpecialHeading_frame stepNoData_frame stepHtml_frame
        stepTitleblock_frame stepBlank_frame stepCode_frame stepFenced_frame[OF assms(1)]
        stepHRule_frame stepQuote_frame[OF assms] stepAside_frame[OF assms(1)]
        stepFigure_frame[OF assms(1)] stepTable_frame[OF assms(1)] stepUli_frame[OF assms(2)]
        stepOli_frame[OF assms(2)] stepDli_frame[OF assms(2)] stepMath_frame
        stepMatter_frame[OF assms(1)])

lemma blockStep_frame:
  assumes "collab_frame C" and "blk_frame blk" and "blockStep blk C p data = Inr (p', d)"
  shows "frame p p'"
proof -
  obtain p1 data1 where at: "(if Attributes \<in> extensions p then attribute C p data else (p, data)) = (p1, data1)"
    by (cases "if Attributes \<in> extensions p then attribute C p data else (p, data)") auto
  have f1: "frame p p1"
    using at collab_frameD(1)[OF assms(1)] by (auto simp: frame_refl split: if_splits)
  from assms(3) at obtain r where
    st: "orElse (firstOf (blockSteps blk C data1)) (stepParagraph blk C data1) p1 = Inr (p', r)"
    by (auto simp: blockStep_def bindE_Inr_iff split: option.splits)
  have "step_frame (orElse (firstOf (blockSteps blk C data1)) (stepParagraph blk C data1))"
    by (rule orElse_frame[OF blockSteps_frame[OF assms(1,2)] stepParagraph_frame[OF assms(1,2)]])
  from step_frameD[OF this st] f1 show ?thesis by (simp add: frame_def)
qed

lemma BlockLoop_frame:
  "collab_frame C \<Longrightarrow> blk_frame blk \<Longrightarrow> BlockLoop blk C k p data = Inr p' \<Longrightarrow> frame p p'"
proof (induction k arbitrary: p data)
  case 0
  then show ?case by (auto simp: frame_refl split: if_splits)
next
  case (Suc k)
  show ?case
  proof (cases "length data > 0")
    case False
    with Suc.prems show ?thesis by (simp add: frame_refl)
  next
    case True
    with Suc.prems(3) obtain p1 data1 where st: "blockStep blk C p data = Inr (p1, data1)"
      and r: "BlockLoop blk C k p1 data1 = Inr p'"
      by (auto split: sum.splits)
    from blockStep_frame[OF Suc.prems(1,2) st] Suc.IH[OF Suc.prems(1,2) r]
    show ?thesis by (rule frame_trans)
  qed
qed

lemma Block_frame: "collab_frame C \<Longrightarrow> blk_frame (Block C n)"
proof (induction n)
  case 0
  show ?case by (auto simp: blk_frame_def frame_refl split: if_splits)
next
  case (Suc n)
  show ?case unfolding blk_frame_def
  proof (intro allI impI)
    fix p d p'
    assume a: "Block C (Suc n) p d = Inr p'"
    show "frame p p'"
    proof (cases "nesting p \<ge> maxNesting p")
      case True
      with a show ?thesis by (simp add: frame_refl)
    next
      case False
      with a obtain p1 where l: "BlockLoop (Block C n) C n (p\<lparr>nesting := nesting p + 1\<rparr>) d = Inr p1"
        and p': "p' = p1\<lparr>nesting := nesting p1 - 1\<rparr>"
        by (auto simp: bindE_Inr_iff)
      from BlockLoop_frame[OF Suc.prems Suc.IH[OF Suc.prems] l]
      show ?thesis by (simp add: frame_def p')
    qed
  qed
qed

subsection \<open>The nesting cap and the nesting counter\<close>

text \<open>
  C4. In a parser whose nesting counter has reached or exceeded the cap, \<open>Block\<close> returns at
  once, for every input: it returns without a fault, and the parser it leaves is the
  parser it got, so nothing is consumed and neither the tree nor any other field has
  changed. This holds for every amount of fuel, also for none.
\<close>

theorem C4_Block_nesting_cap:
  "maxNesting p \<le> nesting p \<Longrightarrow> Block C n p data = Inr p"
  by (cases n) simp_all

text \<open>
  C9. A call of \<open>Block\<close> that returns leaves the nesting counter as it found it, whatever
  the recursive calls did in between; the collaborators outside block.go are taken to
  leave the counter as they find it. When the cap trips, the parser is returned as it
  is, so the counter has not been touched.
\<close>

theorem C9_Block_nesting_preserved:
  "collab_frame C \<Longrightarrow>
     (\<forall>p'. Block C n p data = Inr p' \<longrightarrow> nesting p' = nesting p)
     \<and> (maxNesting p \<le> nesting p \<longrightarrow> Block C n p data = Inr p)"
proof (intro conjI allI impI)
  fix p'
  assume c: "collab_frame C" and r: "Block C n p data = Inr p'"
  from blk_frameD[OF Block_frame[OF c, of n] r] show "nesting p' = nesting p"
    by (simp only: frame_def)
next
  assume "maxNesting p \<le> nesting p"
  then show "Block C n p data = Inr p" by (cases n) simp_all
qed

theorem C4_witness:
  "maxNesting (parser0\<lparr>nesting := 16\<rparr>) \<le> nesting (parser0\<lparr>nesting := 16\<rparr>)
   \<and> Block collab0 0 (parser0\<lparr>nesting := 16\<rparr>) (''> a'' @ [nl]) = Inr (parser0\<lparr>nesting := 16\<rparr>)
   \<and> Block collab0 7 (parser0\<lparr>nesting := 16\<rparr>) (''> a'' @ [nl]) = Inr (parser0\<lparr>nesting := 16\<rparr>)
   \<and> map_sum id (\<lambda>q. map kind (nodes q)) (Block collab0 7 (parser0\<lparr>maxNesting := 1\<rparr>) (''> a'' @ [nl]))
       = Inr [Document, BlockQuote]
   \<and> map_sum id (\<lambda>q. map kind (nodes q)) (Block collab0 7 parser0 (''> a'' @ [nl]))
       = Inr [Document, BlockQuote, Paragraph]"
proof -
  have a: "maxNesting (parser0\<lparr>nesting := 16\<rparr>) \<le> nesting (parser0\<lparr>nesting := 16\<rparr>)"
    by (simp add: parser0_def)
  have b: "map_sum id (\<lambda>q. map kind (nodes q)) (Block collab0 7 (parser0\<lparr>maxNesting := 1\<rparr>) (''> a'' @ [nl]))
       = Inr [Document, BlockQuote]"
    by code_simp
  have c: "map_sum id (\<lambda>q. map kind (nodes q)) (Block collab0 7 parser0 (''> a'' @ [nl]))
       = Inr [Document, BlockQuote, Paragraph]"
    by code_simp
  from C4_Block_nesting_cap [OF a, of collab0 0 "''> a'' @ [nl]"]
    C4_Block_nesting_cap [OF a, of collab0 7 "''> a'' @ [nl]"] a b c
  show ?thesis by simp
qed

lemma collab0_frame: "collab_frame collab0"
  by (simp add: collab_frame_def collab0_def frame_def)

theorem C9_witness:
  "collab_frame collab0
   \<and> (\<exists>p'. Block collab0 9 parser0 (''* a'' @ [nl, nl] @ ''    > b'' @ [nl]) = Inr p'
          \<and> nesting p' = nesting parser0
          \<and> map kind (nodes p') = [Document, List, ListItem, Paragraph, BlockQuote, Paragraph])
   \<and> Block collab0 9 (parser0\<lparr>nesting := 16\<rparr>) (''* a'' @ [nl]) = Inr (parser0\<lparr>nesting := 16\<rparr>)"
proof -
  let ?d = "''* a'' @ [nl, nl] @ ''    > b'' @ [nl]"
  have k: "map_sum id (\<lambda>q. map kind (nodes q)) (Block collab0 9 parser0 ?d)
       = Inr [Document, List, ListItem, Paragraph, BlockQuote, Paragraph]"
    by code_simp
  then obtain p' where r: "Block collab0 9 parser0 ?d = Inr p'"
    and n: "map kind (nodes p') = [Document, List, ListItem, Paragraph, BlockQuote, Paragraph]"
    by (cases "Block collab0 9 parser0 ?d") auto
  have a: "maxNesting (parser0\<lparr>nesting := 16\<rparr>) \<le> nesting (parser0\<lparr>nesting := 16\<rparr>)"
    by (simp add: parser0_def)
  from C9_Block_nesting_preserved [OF collab0_frame, of 9 parser0 ?d] r
  have "nesting p' = nesting parser0" by simp
  moreover from C9_Block_nesting_preserved [OF collab0_frame, of 9 "parser0\<lparr>nesting := 16\<rparr>" "''* a'' @ [nl]"] a
  have "Block collab0 9 (parser0\<lparr>nesting := 16\<rparr>) (''* a'' @ [nl]) = Inr (parser0\<lparr>nesting := 16\<rparr>)"
    by simp
  ultimately show ?thesis using r n collab0_frame by simp
qed

section \<open>The Tight flag of the nodes\<close>

text \<open>
  \<open>tframe p p'\<close>: the nodes of \<open>p\<close> are still there in \<open>p'\<close>, in their places, and each has the
  \<open>Tight\<close> flag it had; \<open>p'\<close> may have more nodes. \<open>collab_tframe\<close> says this of the collaborators
  outside block.go that return a parser, \<open>blk_tframe\<close> of a recursive call and \<open>step_tframe\<close>
  of a test.
\<close>

definition tframe :: "parser \<Rightarrow> parser \<Rightarrow> bool" where
  "tframe p p' \<longleftrightarrow> (\<exists>xs. map Tight (nodes p') = map Tight (nodes p) @ xs)"




subsection \<open>The Tight flags under the tree operations and the recognizers\<close>



lemma map_Tight_update_same:
  assumes "Tight n = Tight (ns ! b)"
  shows "map Tight (ns[b := n]) = map Tight ns"
proof (cases "b < length ns")
  case True
  then have "(map Tight ns)[b := Tight (ns ! b)] = map Tight ns"
    using list_update_id[of "map Tight ns" b] by simp
  with assms show ?thesis by (simp add: map_update)
next
  case False
  then have "length ns \<le> b" by simp
  then show ?thesis by (simp only: list_update_beyond)
qed

lemma map_Tight_update:
  assumes "\<And>n. Tight (f n) = Tight n"
  shows "map Tight (ns[i := f (ns ! i)]) = map Tight ns"
  by (rule map_Tight_update_same) (rule assms)

lemma findContainer_lt: "findContainer ns k i = Inr c \<Longrightarrow> c < length ns"
proof (induction ns k i rule: findContainer.induct)
  case (1 ns k i)
  from "1.prems" show ?case
    by (subst (asm) findContainer.simps) (auto split: if_splits option.splits intro: "1.IH")
qed


























lemma finalizeList_tframe: "finalizeList p l = Inr p' \<Longrightarrow> tframe p p'"
  by (auto dest: finalizeList_id simp: tframe_def)



















































subsection \<open>Where the Tight flag of a list changes\<close>





end
